theory Spec2Isabelle
  imports Complex_Main "HOL-Library.Multiset" "HOL-Library.Log_Nat"
begin

section \<open>Python numbers\<close>

text \<open>
  The arguments of \<open>newinvestment\<close> are Python numbers: an \<open>int\<close>, which is unbounded, or
  a \<open>float\<close>, which is an IEEE 754 double. A double is a rational number, an infinity or
  a NaN; the sign of a zero is left out, since nothing in the function divides by a
  variable or prints a float. The operations on floats round to the nearest double, ties
  to even, and overflow to an infinity; an \<open>int\<close> that meets a \<open>float\<close> is converted first,
  which raises \<open>OverflowError\<close> when it is too large.
\<close>

datatype xval = Fin rat | PInf | NInf | NaN

datatype pynum = PInt int | PFloat xval

datatype error =
    InvalidWithdrawal  \<comment> \<open>\<open>raise ValueError("...")\<close>, line 32\<close>
  | OverflowError      \<comment> \<open>an \<open>int\<close> too large for a \<open>float\<close>, or \<open>int\<close> of an infinity\<close>
  | NanConversion      \<comment> \<open>the \<open>ValueError\<close> of \<open>int\<close> of a NaN\<close>
  | RemoveMissing      \<comment> \<open>the \<open>ValueError\<close> of \<open>list.remove(x)\<close> when \<open>x\<close> is not in the list\<close>

text \<open>The value of a number, for the comparisons, which Python makes exactly.\<close>

fun val :: "pynum \<Rightarrow> xval" where
  "val (PInt z) = Fin (of_int z)"
| "val (PFloat x) = x"

subsection \<open>Rounding to a double\<close>

definition pow2 :: "int \<Rightarrow> rat" where
  "pow2 e = (if 0 \<le> e then 2 ^ nat e else 1 / 2 ^ nat (- e))"

text \<open>\<open>ilog2 x\<close> is the \<open>k\<close> with \<open>2^k \<le> x < 2^(k+1)\<close>, for \<open>x > 0\<close>.\<close>

definition ilog2 :: "rat \<Rightarrow> int" where
  "ilog2 x = (if 1 \<le> x then bitlen \<lfloor>x\<rfloor> - 1 else - bitlen (\<lceil>1 / x\<rceil> - 1))"

text \<open>Rounding to the nearest integer, ties to the even one.\<close>

definition rne :: "rat \<Rightarrow> int" where
  "rne m = (let r = \<lfloor>m\<rfloor>; f = m - of_int r
            in if f < 1 / 2 then r else if 1 / 2 < f then r + 1
               else if even r then r else r + 1)"

text \<open>
  The nearest number with a 53-bit significand and an exponent of at least -1074 (the
  subnormal doubles have the least exponent), before the overflow check: \<open>expo q\<close> is
  the exponent of the last bit of the significand of \<open>q\<close>.
\<close>

definition expo :: "rat \<Rightarrow> int" where
  "expo q = max (ilog2 \<bar>q\<bar> - 52) (- 1074)"

definition rnd :: "rat \<Rightarrow> rat" where
  "rnd q = (if q = 0 then 0 else of_int (rne (q / pow2 (expo q))) * pow2 (expo q))"

definition fl :: "rat \<Rightarrow> xval" where
  "fl q = (let v = rnd q
           in if pow2 1024 \<le> v then PInf else if v \<le> - pow2 1024 then NInf else Fin v)"

text \<open>
  A \<open>float\<close> that is a number is a double; every \<open>float\<close> that Python passes in is one,
  and so is every result of the operations below.
\<close>

fun is_double :: "pynum \<Rightarrow> bool" where
  "is_double (PFloat (Fin q)) = (fl q = Fin q)"
| "is_double _ = True"

subsection \<open>The operations of the source\<close>

fun xneg :: "xval \<Rightarrow> xval" where
  "xneg (Fin q) = Fin (- q)"
| "xneg PInf = NInf"
| "xneg NInf = PInf"
| "xneg NaN = NaN"

fun xadd :: "xval \<Rightarrow> xval \<Rightarrow> xval" where
  "xadd (Fin p) (Fin q) = fl (p + q)"
| "xadd NaN _ = NaN"
| "xadd _ NaN = NaN"
| "xadd PInf NInf = NaN"
| "xadd NInf PInf = NaN"
| "xadd PInf _ = PInf"
| "xadd _ PInf = PInf"
| "xadd NInf _ = NInf"
| "xadd _ NInf = NInf"

definition xsub :: "xval \<Rightarrow> xval \<Rightarrow> xval" where
  "xsub x y = xadd x (xneg y)"

fun xmul :: "xval \<Rightarrow> xval \<Rightarrow> xval" where
  "xmul (Fin p) (Fin q) = fl (p * q)"
| "xmul NaN _ = NaN"
| "xmul _ NaN = NaN"
| "xmul (Fin p) i = (if p = 0 then NaN else if 0 < p then i else xneg i)"
| "xmul i (Fin q) = (if q = 0 then NaN else if 0 < q then i else xneg i)"
| "xmul i j = (if i = j then PInf else NInf)"

fun xlt :: "xval \<Rightarrow> xval \<Rightarrow> bool" where
  "xlt (Fin p) (Fin q) = (p < q)"
| "xlt NaN _ = False"
| "xlt _ NaN = False"
| "xlt _ NInf = False"
| "xlt NInf _ = True"
| "xlt PInf _ = False"
| "xlt _ PInf = True"

text \<open>\<open>u > v\<close>.\<close>

definition py_gt :: "pynum \<Rightarrow> pynum \<Rightarrow> bool" where
  "py_gt u v = xlt (val v) (val u)"

text \<open>\<open>u <= v\<close>.\<close>

definition py_le :: "pynum \<Rightarrow> pynum \<Rightarrow> bool" where
  "py_le u v = (xlt (val u) (val v) \<or> (val u = val v \<and> val u \<noteq> NaN))"

text \<open>The conversion of an \<open>int\<close> operand that meets a \<open>float\<close>.\<close>

definition to_float :: "int \<Rightarrow> error + xval" where
  "to_float z = (case fl (of_int z) of Fin v \<Rightarrow> Inr (Fin v) | _ \<Rightarrow> Inl OverflowError)"

fun as_float :: "pynum \<Rightarrow> error + xval" where
  "as_float (PInt z) = to_float z"
| "as_float (PFloat x) = Inr x"

text \<open>\<open>int(u)\<close>: truncation toward zero.\<close>

fun py_int :: "pynum \<Rightarrow> error + int" where
  "py_int (PInt z) = Inr z"
| "py_int (PFloat (Fin q)) = Inr (if 0 \<le> q then \<lfloor>q\<rfloor> else \<lceil>q\<rceil>)"
| "py_int (PFloat NaN) = Inl NanConversion"
| "py_int (PFloat _) = Inl OverflowError"

text \<open>\<open>t / 100\<close>: true division, correctly rounded also for an \<open>int\<close>.\<close>

fun div100 :: "pynum \<Rightarrow> error + xval" where
  "div100 (PInt z) =
     (case fl (of_int z / 100) of Fin v \<Rightarrow> Inr (Fin v) | _ \<Rightarrow> Inl OverflowError)"
| "div100 (PFloat (Fin q)) = Inr (fl (q / 100))"
| "div100 (PFloat x) = Inr x"

text \<open>\<open>u - v\<close>: exact on two \<open>int\<close>s, a float subtraction otherwise.\<close>

fun py_sub :: "pynum \<Rightarrow> pynum \<Rightarrow> error + pynum" where
  "py_sub (PInt x) (PInt y) = Inr (PInt (x - y))"
| "py_sub u v =
     (case as_float u of
        Inl e \<Rightarrow> Inl e
      | Inr p \<Rightarrow>
          (case as_float v of
             Inl e \<Rightarrow> Inl e
           | Inr q \<Rightarrow> Inr (PFloat (xsub p q))))"

text \<open>
  The right-hand side of line 28, \<open>int(y0 * (1 + t / 100) + a)\<close>. The quotient is a
  float, so each of the three operations after it is a float operation.
\<close>

definition growth :: "pynum \<Rightarrow> pynum \<Rightarrow> pynum \<Rightarrow> error + int" where
  "growth t a b =
     (case div100 t of
        Inl e \<Rightarrow> Inl e
      | Inr r \<Rightarrow>
          (case as_float b of
             Inl e \<Rightarrow> Inl e
           | Inr p \<Rightarrow>
               (case as_float a of
                  Inl e \<Rightarrow> Inl e
                | Inr q \<Rightarrow> py_int (PFloat (xadd (xmul p (xadd (Fin 1) r)) q)))))"

section \<open>The projection engine \<open>newinvestment\<close> of \<open>app.py\<close>\<close>

text \<open>
  The argument \<open>travelgoals\<close> is a reference to a list object that the caller also
  holds, and \<open>goals.remove\<close> mutates a list object in place. List objects therefore
  live in a store: a list of list values, an address being an index. The lists \<open>y\<close>,
  \<open>y_start\<close> and \<open>withdraw_months\<close> are created by the call and reachable from nowhere
  else until it returns, so they are kept as values.
\<close>

type_synonym addr = nat
type_synonym heap = "pynum list list"

text \<open>\<open>list(xs)\<close>: a new list object with the elements of \<open>xs\<close>, at a fresh address.\<close>

definition list_copy :: "heap \<Rightarrow> addr \<Rightarrow> heap \<times> addr" where
  "list_copy h p = (h @ [h ! p], length h)"

text \<open>
  \<open>xs.remove(v)\<close>: drops the first element equal to \<open>v\<close>, raises when there is none. An
  \<open>int\<close> and a \<open>float\<close> of the same value are equal. The call is only made for a goal
  below the balance, which is no NaN.
\<close>

fun remove_first :: "pynum \<Rightarrow> pynum list \<Rightarrow> pynum list" where
  "remove_first v [] = []"
| "remove_first v (x # xs) = (if val x = val v then xs else x # remove_first v xs)"

definition list_remove :: "pynum \<Rightarrow> pynum list \<Rightarrow> error + pynum list" where
  "list_remove v xs =
     (if val v \<in> val ` set xs then Inr (remove_first v xs) else Inl RemoveMissing)"

text \<open>The local variables of \<open>newinvestment\<close>; \<open>goals\<close> is the address of the working list.\<close>

record locals =
  x0 :: int
  y0 :: pynum
  y :: "int list"
  y_start :: "int list"
  goals :: addr
  withdraw_months :: "int list"

text \<open>Lines 30 to 37: the body of \<open>for goal in list(goals)\<close> for one \<open>goal\<close>.\<close>

definition goal_body :: "pynum \<Rightarrow> pynum \<Rightarrow> heap \<Rightarrow> locals \<Rightarrow> heap \<times> (error + locals)" where
  "goal_body travelbudget goal h s =
     (if py_gt (y0 s) goal then
        (if py_gt travelbudget (y0 s) then (h, Inl InvalidWithdrawal)
         else
           (case py_sub (y0 s) travelbudget of
              Inl e \<Rightarrow> (h, Inl e)
            | Inr v \<Rightarrow>
                (let s1 = s\<lparr>y0 := v\<rparr> in
                 case list_remove goal (h ! goals s1) of
                   Inl e \<Rightarrow> (h, Inl e)
                 | Inr l \<Rightarrow>
                     (h[goals s1 := l],
                      Inr (s1\<lparr>withdraw_months := withdraw_months s1 @ [x0 s1 + 1]\<rparr>)))))
      else (h, Inr s))"

text \<open>Line 35 applied \<open>k\<close> times: the balance after \<open>k\<close> withdrawals.\<close>

fun withdrawn :: "nat \<Rightarrow> pynum \<Rightarrow> pynum \<Rightarrow> error + pynum" where
  "withdrawn 0 travelbudget u = Inr u"
| "withdrawn (Suc k) travelbudget u =
     (case py_sub u travelbudget of
        Inl e \<Rightarrow> Inl e
      | Inr v \<Rightarrow> withdrawn k travelbudget v)"

text \<open>
  Line 29: the loop over the snapshot \<open>list(goals)\<close>. The snapshot is a temporary list
  that nothing writes to, so it is passed as a value; an exception leaves the loop.
\<close>

fun for_goals :: "pynum \<Rightarrow> pynum list \<Rightarrow> heap \<Rightarrow> locals \<Rightarrow> heap \<times> (error + locals)" where
  "for_goals travelbudget [] h s = (h, Inr s)"
| "for_goals travelbudget (goal # rest) h s =
     (case goal_body travelbudget goal h s of
        (h', Inl e) \<Rightarrow> (h', Inl e)
      | (h', Inr s') \<Rightarrow> for_goals travelbudget rest h' s')"

text \<open>Lines 27 and 28: the start of a month.\<close>

definition begin_month :: "pynum \<Rightarrow> pynum \<Rightarrow> locals \<Rightarrow> error + locals" where
  "begin_month t a s =
     (case py_int (y0 s) of
        Inl e \<Rightarrow> Inl e
      | Inr z \<Rightarrow>
          (let s1 = s\<lparr>y_start := y_start s @ [z]\<rparr> in
           case growth t a (y0 s1) of
             Inl e \<Rightarrow> Inl e
           | Inr g \<Rightarrow> Inr (s1\<lparr>y0 := PInt g\<rparr>)))"

text \<open>Lines 38 and 39: the end of a month.\<close>

definition end_month :: "locals \<Rightarrow> error + locals" where
  "end_month s =
     (case py_int (y0 s) of
        Inl e \<Rightarrow> Inl e
      | Inr z \<Rightarrow> (let s1 = s\<lparr>y := y s @ [z]\<rparr> in Inr (s1\<lparr>x0 := x0 s1 + 1\<rparr>)))"

text \<open>Lines 26 to 39: the body of the \<open>while\<close> loop.\<close>

definition month_body ::
  "pynum \<Rightarrow> pynum \<Rightarrow> pynum \<Rightarrow> heap \<Rightarrow> locals \<Rightarrow> heap \<times> (error + locals)" where
  "month_body t a travelbudget h s =
     (case begin_month t a s of
        Inl e \<Rightarrow> (h, Inl e)
      | Inr s1 \<Rightarrow>
          (case for_goals travelbudget (h ! goals s1) h s1 of
             (h', Inl e) \<Rightarrow> (h', Inl e)
           | (h', Inr s2) \<Rightarrow>
               (case end_month s2 of
                  Inl e \<Rightarrow> (h', Inl e)
                | Inr s3 \<Rightarrow> (h', Inr s3))))"

text \<open>Line 25: \<open>while x0 < limit\<close>.\<close>

function while_loop ::
  "pynum \<Rightarrow> pynum \<Rightarrow> pynum \<Rightarrow> int \<Rightarrow> heap \<Rightarrow> locals \<Rightarrow> heap \<times> (error + locals)" where
  "while_loop t a travelbudget limit h s =
     (if x0 s < limit then
        (case month_body t a travelbudget h s of
           (h', Inl e) \<Rightarrow> (h', Inl e)
         | (h', Inr s') \<Rightarrow> while_loop t a travelbudget limit h' s')
      else (h, Inr s))"
  by pat_completeness auto
termination
proof (relation "measure (\<lambda>(t, a, b, limit, h, s). nat (limit - x0 s))")
  show "wf (measure (\<lambda>(t, a, b, limit, h, s). nat (limit - x0 s)))"
    by simp
next
  fix t a travelbudget :: pynum and limit :: int and h h' :: heap and s s' :: locals
    and res :: "error + locals"
  assume lt: "x0 s < limit" and m: "(h', res) = month_body t a travelbudget h s"
    and res: "res = Inr s'"
  have goal: "x0 s2 = x0 s1" if "goal_body b g h1 s1 = (h2, Inr s2)"
    for b g h1 h2 and s1 s2 :: locals
    using that by (auto simp: goal_body_def Let_def split: if_splits sum.splits)
  have loop: "x0 s2 = x0 s1" if "for_goals b gs h1 s1 = (h2, Inr s2)"
    for b gs h1 h2 and s1 s2 :: locals
    using that
  proof (induction gs arbitrary: h1 s1)
    case Nil
    then show ?case by simp
  next
    case (Cons g gs)
    then show ?case
      by (auto split: prod.splits sum.splits dest: goal)
  qed
  from m res have "x0 s' = x0 s + 1"
    by (auto simp: month_body_def begin_month_def end_month_def Let_def
        split: prod.splits sum.splits dest: loop)
  with lt
  show "((t, a, travelbudget, limit, h', s'), (t, a, travelbudget, limit, h, s))
          \<in> measure (\<lambda>(t, a, b, limit, h, s). nat (limit - x0 s))"
    by simp
qed

declare while_loop.simps [simp del]

text \<open>
  Lines 16 to 23: the locals before the loop, \<open>z\<close> the value of \<open>int(initial_balance)\<close>
  and \<open>g\<close> the address of \<open>list(travelgoals)\<close>.
\<close>

definition init_locals :: "int \<Rightarrow> addr \<Rightarrow> locals" where
  "init_locals z g =
     \<lparr>x0 = 0, y0 = PInt z, y = [], y_start = [], goals = g, withdraw_months = []\<rparr>"

text \<open>
  The function, in a store \<open>h\<close> where \<open>travelgoals\<close> is the address of the caller's
  list. It gives the store after the call and either the exception or the returned
  triple \<open>(y, y_start, withdraw_months)\<close>. Line 17 comes before the copy of line 22, so
  an exception of \<open>int(initial_balance)\<close> leaves the store as it was. The default of
  \<open>initial_balance\<close> is not modelled: the argument is always given.
\<close>

definition newinvestment ::
  "heap \<Rightarrow> pynum \<Rightarrow> pynum \<Rightarrow> addr \<Rightarrow> pynum \<Rightarrow> int \<Rightarrow> pynum
     \<Rightarrow> heap \<times> (error + int list \<times> int list \<times> int list)" where
  "newinvestment h t a travelgoals travelbudget limit initial_balance =
     (case py_int initial_balance of
        Inl e \<Rightarrow> (h, Inl e)
      | Inr z \<Rightarrow>
          (let (h1, g) = list_copy h travelgoals in
           case while_loop t a travelbudget limit h1 (init_locals z g) of
             (h', Inl e) \<Rightarrow> (h', Inl e)
           | (h', Inr s) \<Rightarrow> (h', Inr (y s, y_start s, withdraw_months s))))"

text \<open>
  \<open>validate_inputs\<close>, the check the page makes before it calls \<open>newinvestment\<close>: \<open>True\<close>
  when it returns \<open>None\<close>, \<open>False\<close> when it returns a message.
\<close>

definition validate_inputs ::
  "pynum \<Rightarrow> int \<Rightarrow> pynum list \<Rightarrow> pynum \<Rightarrow> pynum \<Rightarrow> pynum \<Rightarrow> bool" where
  "validate_inputs rate horizon gs initial contribution budget =
     (if py_gt (PInt 0) rate then False
      else if horizon \<le> 0 then False
      else if list_ex (\<lambda>g. py_le g (PInt 0)) gs then False
      else if py_gt (PInt 0) initial \<or> py_gt (PInt 0) contribution \<or> py_gt (PInt 0) budget
        then False
      else True)"


section \<open>Rounding\<close>

lemma pow2_powi: "pow2 e = power_int 2 e"
  by (simp add: pow2_def power_int_def inverse_eq_divide power_one_over)

lemma pow2_pos [simp]: "0 < pow2 e"
  by (simp add: pow2_powi)

lemma pow2_nonneg [simp]: "0 \<le> pow2 e"
  using pow2_pos [of e] by (simp only: order_less_imp_le)

lemma pow2_neq_0 [simp]: "pow2 e \<noteq> 0"
  by (metis less_irrefl pow2_pos)

lemma pow2_52: "pow2 52 = 4503599627370496"
  by (simp add: pow2_def)

lemma pow2_53: "pow2 53 = 9007199254740992"
  by (simp add: pow2_def)

lemma pow2_add: "pow2 (i + j) = pow2 i * pow2 j"
  by (simp add: pow2_powi power_int_add)

lemma pow2_diff: "pow2 (i - j) = pow2 i / pow2 j"
  by (simp add: pow2_powi power_int_diff)

lemma pow2_less_iff [simp]: "pow2 i < pow2 j \<longleftrightarrow> i < j"
proof -
  have "pow2 m < pow2 n" if "m < n" for m n
    using that power_int_strict_increasing [of m n "2 :: rat"] by (simp add: pow2_powi)
  then show ?thesis
    by (metis linorder_neqE_linordered_idom order_less_asym order_less_irrefl)
qed

lemma pow2_le_iff [simp]: "pow2 i \<le> pow2 j \<longleftrightarrow> i \<le> j"
  using pow2_less_iff [of j i] by (simp only: linorder_not_less [symmetric])

lemma pow2_minus: "pow2 (- e) = 1 / pow2 e"
  using pow2_diff [of 0 e] by (simp add: pow2_def)

lemma pow2_nat: "0 \<le> e \<Longrightarrow> pow2 e = of_int (2 ^ nat e)"
  by (simp add: pow2_def)

lemma pow2_0 [simp]: "pow2 0 = 1"
  by (simp add: pow2_def)

lemma ilog2_bounds:
  assumes "0 < x"
  shows "pow2 (ilog2 x) \<le> x" and "x < pow2 (ilog2 x + 1)"
proof -
  have "pow2 (ilog2 x) \<le> x \<and> x < pow2 (ilog2 x + 1)"
  proof (cases "1 \<le> x")
    case True
    let ?n = "\<lfloor>x\<rfloor>"
    from True have n: "0 < ?n" by simp
    from bitlen_bounds [OF n] have b: "2 ^ nat (bitlen ?n - 1) \<le> ?n" "?n < 2 ^ nat (bitlen ?n)"
      by simp_all
    from n have pos: "1 \<le> bitlen ?n"
      using bitlen_eq_zero_iff [of ?n] bitlen_nonneg [of ?n] by linarith
    have "pow2 (bitlen ?n - 1) = of_int (2 ^ nat (bitlen ?n - 1))"
      using pos by (simp add: pow2_nat)
    also have "\<dots> \<le> of_int ?n"
      using b(1) by (simp only: of_int_le_iff)
    also have "\<dots> \<le> x" by simp
    finally have lo: "pow2 (bitlen ?n - 1) \<le> x" .
    from b(2) have "?n + 1 \<le> 2 ^ nat (bitlen ?n)" by linarith
    then have up: "(of_int (?n + 1) :: rat) \<le> of_int (2 ^ nat (bitlen ?n))"
      by (simp only: of_int_le_iff)
    have "x < of_int (?n + 1)" by linarith
    also note up
    also have "(of_int (2 ^ nat (bitlen ?n)) :: rat) = pow2 (bitlen ?n)"
      using pos by (simp add: pow2_nat)
    finally have "x < pow2 (bitlen ?n)" .
    with lo True show ?thesis
      by (simp add: ilog2_def)
  next
    case False
    let ?y = "1 / x"
    let ?n = "\<lceil>?y\<rceil> - 1"
    from False assms have y: "1 < ?y" by simp
    then have n: "0 < ?n" by linarith
    have ny: "of_int ?n < ?y" "?y \<le> of_int (?n + 1)"
      by linarith+
    from bitlen_bounds [OF n] have b: "2 ^ nat (bitlen ?n - 1) \<le> ?n" "?n < 2 ^ nat (bitlen ?n)"
      by simp_all
    from n have pos: "1 \<le> bitlen ?n"
      using bitlen_eq_zero_iff [of ?n] bitlen_nonneg [of ?n] by linarith
    from b(2) have "?n + 1 \<le> 2 ^ nat (bitlen ?n)" by linarith
    then have up: "(of_int (?n + 1) :: rat) \<le> of_int (2 ^ nat (bitlen ?n))"
      by (simp only: of_int_le_iff)
    have "?y \<le> of_int (?n + 1)" by (rule ny(2))
    also note up
    also have "(of_int (2 ^ nat (bitlen ?n)) :: rat) = pow2 (bitlen ?n)"
      using pos by (simp add: pow2_nat)
    finally have "?y \<le> pow2 (bitlen ?n)" .
    then have lo: "pow2 (- bitlen ?n) \<le> x"
      using assms pow2_pos [of "bitlen ?n"]
      by (simp add: pow2_minus field_simps)
    have "pow2 (bitlen ?n - 1) = of_int (2 ^ nat (bitlen ?n - 1))"
      using pos by (simp add: pow2_nat)
    also have "\<dots> \<le> of_int ?n"
      using b(1) by (simp only: of_int_le_iff)
    also have "\<dots> < ?y" by (rule ny(1))
    finally have "pow2 (bitlen ?n - 1) < ?y" .
    then have "x < 1 / pow2 (bitlen ?n - 1)"
      using assms pow2_pos [of "bitlen ?n - 1"]
      by (simp add: field_simps)
    also have "1 / pow2 (bitlen ?n - 1) = pow2 (- bitlen ?n + 1)"
      using pow2_minus [of "bitlen ?n - 1"] by simp
    finally have "x < pow2 (- bitlen ?n + 1)" .
    with lo False show ?thesis
      by (simp add: ilog2_def)
  qed
  then show "pow2 (ilog2 x) \<le> x" and "x < pow2 (ilog2 x + 1)"
    by simp_all
qed


lemma rne_of_int [simp]: "rne (of_int z) = z"
  by (simp add: rne_def)

lemma rne_cases:
  "rne m = \<lfloor>m\<rfloor> \<and> m - of_int \<lfloor>m\<rfloor> \<le> 1 / 2 \<or>
   rne m = \<lfloor>m\<rfloor> + 1 \<and> 1 / 2 \<le> m - of_int \<lfloor>m\<rfloor>"
  by (simp add: rne_def Let_def)

lemma rne_mono:
  assumes "m \<le> n"
  shows "rne m \<le> rne n"
proof (cases "\<lfloor>m\<rfloor> = \<lfloor>n\<rfloor>")
  case True
  with assms show ?thesis
    by (auto simp: rne_def Let_def)
next
  case False
  with assms have "\<lfloor>m\<rfloor> + 1 \<le> \<lfloor>n\<rfloor>"
    using floor_mono [of m n] by linarith
  moreover have "rne m \<le> \<lfloor>m\<rfloor> + 1" "\<lfloor>n\<rfloor> \<le> rne n"
    by (auto simp: rne_def Let_def)
  ultimately show ?thesis by linarith
qed

lemma rne_ge: "of_int z \<le> m \<Longrightarrow> z \<le> rne m"
  using rne_mono [of "of_int z" m] by simp

lemma rne_le: "m \<le> of_int z \<Longrightarrow> rne m \<le> z"
  using rne_mono [of m "of_int z"] by simp

lemma rne_minus: "rne (- m) = - rne m"
proof (cases "m = of_int \<lfloor>m\<rfloor>")
  case True
  then obtain z where m: "m = of_int z" ..
  have "rne (of_int (- z)) = - z"
    by (rule rne_of_int)
  then show ?thesis
    by (simp add: m)
next
  case False
  have lt: "of_int \<lfloor>m\<rfloor> < m"
    by (metis False of_int_floor_le order_le_less)
  have "m < of_int \<lfloor>m\<rfloor> + 1" by linarith
  with lt have fl: "\<lfloor>- m\<rfloor> = - \<lfloor>m\<rfloor> - 1"
    by (intro floor_unique) simp_all
  show ?thesis
    unfolding rne_def Let_def fl
    by (auto simp: algebra_simps)
qed

lemma rnd_expo: "q \<noteq> 0 \<Longrightarrow> rnd q = of_int (rne (q / pow2 (expo q))) * pow2 (expo q)"
  by (simp add: rnd_def)

lemma rnd_0 [simp]: "rnd 0 = 0"
  by (simp add: rnd_def)

lemma rnd_minus: "rnd (- q) = - rnd q"
proof (cases "q = 0")
  case True
  then show ?thesis by simp
next
  case False
  have "expo (- q) = expo q"
    by (simp add: expo_def)
  with False show ?thesis
    by (simp add: rnd_expo rne_minus)
qed

lemma rnd_nonneg:
  assumes "0 \<le> q"
  shows "0 \<le> rnd q"
proof (cases "q = 0")
  case True
  then show ?thesis by simp
next
  case False
  with assms have "of_int 0 \<le> q / pow2 (expo q)"
    by simp
  then have "0 \<le> rne (q / pow2 (expo q))"
    by (rule rne_ge)
  with False show ?thesis
    by (simp add: rnd_expo)
qed

lemma rnd_nonpos: "q \<le> 0 \<Longrightarrow> rnd q \<le> 0"
  using rnd_nonneg [of "- q"] by (simp add: rnd_minus)

text \<open>A number with a significand below \<open>2^53\<close> and an exponent of at least -1074 is not changed.\<close>

lemma rnd_exact:
  assumes "\<bar>n\<bar> < 2 ^ 53" and "- 1074 \<le> j"
  shows "rnd (of_int n * pow2 j) = of_int n * pow2 j"
proof (cases "n = 0")
  case True
  then show ?thesis by simp
next
  case False
  let ?q = "of_int n * pow2 j :: rat"
  from False have q0: "?q \<noteq> 0"
    using pow2_pos [of j] by simp
  then have pos: "0 < \<bar>?q\<bar>" by simp
  have "(of_int \<bar>n\<bar> :: rat) < of_int (2 ^ 53)"
    using assms(1) by (simp only: of_int_less_iff)
  then have "\<bar>of_int n :: rat\<bar> < pow2 53"
    by (simp add: pow2_53)
  then have "\<bar>?q\<bar> < pow2 53 * pow2 j"
    using pow2_pos [of j] by (simp add: abs_mult)
  with ilog2_bounds(1) [OF pos] have "pow2 (ilog2 \<bar>?q\<bar>) < pow2 (53 + j)"
    by (simp add: pow2_add)
  then have "ilog2 \<bar>?q\<bar> - 52 \<le> j"
    by simp
  with assms(2) have "expo ?q \<le> j"
    by (simp add: expo_def)
  define e where "e = expo ?q"
  define d where "d = nat (j - e)"
  from \<open>expo ?q \<le> j\<close> have "pow2 j = pow2 (int d) * pow2 e"
    using pow2_add [of "int d" e] by (simp add: d_def e_def)
  then have pj: "pow2 j = of_int (2 ^ d) * pow2 e"
    by (simp add: pow2_nat)
  have "of_int n * (of_int (2 ^ d) * pow2 e) / pow2 e = (of_int (n * 2 ^ d) :: rat)"
    by simp
  then have "rne (of_int n * (of_int (2 ^ d) * pow2 e) / pow2 e) = n * 2 ^ d"
    by (simp only: rne_of_int)
  then have "of_int (rne (of_int n * pow2 j / pow2 e)) * pow2 e = of_int n * pow2 j"
    by (simp add: pj)
  with q0 show ?thesis
    by (simp add: rnd_expo e_def)
qed

lemma rnd_pos_upper:
  assumes "0 < x"
  shows "rnd x \<le> pow2 (expo x + 53)"
proof -
  from assms have x: "\<bar>x\<bar> = x" "x \<noteq> 0" by simp_all
  have "ilog2 x + 1 \<le> expo x + 53"
    by (simp add: expo_def x)
  then have "pow2 (ilog2 x + 1) \<le> pow2 (expo x + 53)"
    by simp
  with ilog2_bounds(2) [OF assms] have "x < pow2 53 * pow2 (expo x)"
    by (simp add: pow2_add mult.commute)
  then have "x / pow2 (expo x) \<le> of_int (2 ^ 53)"
    using pow2_pos [of "expo x"] by (simp add: field_simps pow2_53)
  then have "rne (x / pow2 (expo x)) \<le> 2 ^ 53"
    by (rule rne_le)
  then have "(of_int (rne (x / pow2 (expo x))) :: rat) \<le> of_int (2 ^ 53)"
    by (simp only: of_int_le_iff)
  then have "of_int (rne (x / pow2 (expo x))) * pow2 (expo x) \<le> pow2 53 * pow2 (expo x)"
    by (simp add: pow2_53)
  with x show ?thesis
    by (simp add: rnd_expo pow2_add mult.commute)
qed

lemma rnd_pos_lower:
  assumes "0 < x" and "expo x = ilog2 x - 52"
  shows "pow2 (expo x + 52) \<le> rnd x"
proof -
  from assms have x: "\<bar>x\<bar> = x" "x \<noteq> 0" by simp_all
  from ilog2_bounds(1) [OF assms(1)] assms(2) have "pow2 (expo x + 52) \<le> x"
    by simp
  then have "of_int (2 ^ 52) \<le> x / pow2 (expo x)"
    using pow2_pos [of "expo x"] by (simp add: field_simps pow2_add pow2_52)
  then have "2 ^ 52 \<le> rne (x / pow2 (expo x))"
    by (rule rne_ge)
  then have "(of_int (2 ^ 52) :: rat) \<le> of_int (rne (x / pow2 (expo x)))"
    by (simp only: of_int_le_iff)
  then have "pow2 52 * pow2 (expo x) \<le> of_int (rne (x / pow2 (expo x))) * pow2 (expo x)"
    by (simp add: pow2_52)
  with x show ?thesis
    by (simp add: rnd_expo pow2_add mult.commute)
qed

lemma rnd_mono_pos:
  assumes "0 < x" and "x \<le> w"
  shows "rnd x \<le> rnd w"
proof -
  from assms have wpos: "0 < w" by simp
  from assms wpos have ax: "\<bar>x\<bar> = x" "x \<noteq> 0" "\<bar>w\<bar> = w" "w \<noteq> 0" by simp_all
  from ilog2_bounds(1) [OF assms(1)] ilog2_bounds(2) [OF wpos] assms(2)
  have "pow2 (ilog2 x) < pow2 (ilog2 w + 1)"
    by linarith
  then have k: "ilog2 x \<le> ilog2 w"
    by simp
  then have e: "expo x \<le> expo w"
    by (simp add: expo_def ax)
  show ?thesis
  proof (cases "expo x = expo w")
    case True
    from assms(2) have "x / pow2 (expo w) \<le> w / pow2 (expo w)"
      using pow2_pos [of "expo w"] by (simp add: divide_right_mono)
    then have "rne (x / pow2 (expo w)) \<le> rne (w / pow2 (expo w))"
      by (rule rne_mono)
    then have "(of_int (rne (x / pow2 (expo w))) :: rat) \<le> of_int (rne (w / pow2 (expo w)))"
      by (simp only: of_int_le_iff)
    then show ?thesis
      using pow2_pos [of "expo w"] by (simp add: rnd_expo ax True)
  next
    case False
    with e have lt: "expo x < expo w" by simp
    moreover have "- 1074 \<le> expo x"
      by (simp add: expo_def)
    ultimately have "expo w = ilog2 w - 52"
      by (simp add: expo_def ax max_def split: if_splits)
    from rnd_pos_lower [OF wpos this] have "pow2 (expo w + 52) \<le> rnd w" .
    moreover from lt have "pow2 (expo x + 53) \<le> pow2 (expo w + 52)"
      by simp
    ultimately show ?thesis
      using rnd_pos_upper [OF assms(1)] by linarith
  qed
qed

lemma rnd_mono:
  assumes "x \<le> w"
  shows "rnd x \<le> rnd w"
proof -
  consider "0 < x" | "x \<le> 0" "0 \<le> w" | "w < 0"
    using assms by linarith
  then show ?thesis
  proof cases
    case 1
    then show ?thesis using assms by (rule rnd_mono_pos)
  next
    case 2
    then show ?thesis
      using rnd_nonpos [of x] rnd_nonneg [of w] by linarith
  next
    case 3
    with assms have "0 < - w" "- w \<le> - x" by simp_all
    from rnd_mono_pos [OF this] show ?thesis
      by (simp add: rnd_minus)
  qed
qed

lemma pow2_1024: "pow2 1024 = 2 ^ 1024"
  by (simp add: pow2_def)

lemma rnd_int:
  "rnd (of_int z) \<in> \<int>"
proof (cases "z = 0")
  case True
  then show ?thesis by simp
next
  case False
  let ?q = "of_int z :: rat"
  let ?e = "expo ?q"
  from False have q0: "?q \<noteq> 0" by simp
  show ?thesis
  proof (cases "0 \<le> ?e")
    case True
    then have "pow2 ?e = of_int (2 ^ nat ?e)"
      by (rule pow2_nat)
    with q0 have "rnd ?q = of_int (rne (?q / pow2 ?e) * 2 ^ nat ?e)"
      by (simp add: rnd_expo)
    then show ?thesis
      by (simp only: Ints_of_int)
  next
    case False
    then have "pow2 (- ?e) = of_int (2 ^ nat (- ?e))"
      by (intro pow2_nat) simp
    then have "?q / pow2 ?e = of_int (z * 2 ^ nat (- ?e))"
      using pow2_minus [of "- ?e"] by simp
    then have "rne (?q / pow2 ?e) = z * 2 ^ nat (- ?e)"
      by (simp only: rne_of_int)
    moreover have "of_int (2 ^ nat (- ?e)) * pow2 ?e = (1 :: rat)"
      using \<open>pow2 (- ?e) = of_int (2 ^ nat (- ?e))\<close> pow2_add [of "- ?e" ?e] by simp
    ultimately have "rnd ?q = ?q"
      using q0 by (simp add: rnd_expo mult.assoc)
    then show ?thesis
      by (simp only: Ints_of_int)
  qed
qed

lemma fl_Fin_iff:
  "fl q = Fin v \<longleftrightarrow> v = rnd q \<and> - pow2 1024 < rnd q \<and> rnd q < pow2 1024"
  by (auto simp: fl_def Let_def)

lemma fl_PInf_iff: "fl q = PInf \<longleftrightarrow> pow2 1024 \<le> rnd q"
  by (auto simp: fl_def Let_def)

lemma fl_NInf_iff: "fl q = NInf \<longleftrightarrow> rnd q \<le> - pow2 1024"
  by (auto simp: fl_def Let_def pow2_1024)

lemma fl_not_NaN [simp]: "fl q \<noteq> NaN"
  by (simp add: fl_def Let_def)

lemma fl_0 [simp]: "fl 0 = Fin 0"
  by (simp add: fl_Fin_iff)

text \<open>The doubles: a significand below \<open>2^53\<close> with an exponent from -1074 to 971.\<close>

lemma fl_exact:
  assumes "\<bar>n\<bar> < 2 ^ 53" and "- 1074 \<le> j" and "j \<le> 971"
  shows "fl (of_int n * pow2 j) = Fin (of_int n * pow2 j)"
proof -
  have "(of_int \<bar>n\<bar> :: rat) < of_int (2 ^ 53)"
    using assms(1) by (simp only: of_int_less_iff)
  then have "\<bar>of_int n :: rat\<bar> < pow2 53"
    by (simp add: pow2_53)
  then have "\<bar>of_int n * pow2 j\<bar> < pow2 53 * pow2 j"
    by (simp add: abs_mult)
  also have "\<dots> = pow2 (53 + j)"
    by (simp add: pow2_add)
  also have "\<dots> \<le> pow2 1024"
    using assms(3) by simp
  finally have "\<bar>of_int n * pow2 j\<bar> < pow2 1024" .
  with rnd_exact [OF assms(1,2)] show ?thesis
    by (simp add: fl_Fin_iff abs_less_iff)
qed

lemma fl_of_int:
  assumes "\<bar>z\<bar> < 2 ^ 53"
  shows "fl (of_int z) = Fin (of_int z)"
  using fl_exact [OF assms, of 0] by simp

lemma fl_overflow:
  assumes "pow2 1024 \<le> q"
  shows "fl q = PInf"
proof -
  have "rnd (of_int 1 * pow2 1024) = of_int 1 * pow2 1024"
    by (rule rnd_exact) simp_all
  with rnd_mono [OF assms] show ?thesis
    by (simp add: fl_PInf_iff)
qed

lemma fl_not_neg:
  assumes "0 \<le> q"
  shows "\<not> xlt (fl q) (Fin 0)"
proof (cases "fl q")
  case (Fin v)
  then have "v = rnd q"
    by (simp add: fl_Fin_iff)
  with rnd_nonneg [OF assms] show ?thesis
    by (simp add: Fin)
next
  case NInf
  then have "rnd q \<le> - pow2 1024"
    by (simp add: fl_NInf_iff)
  with rnd_nonneg [OF assms] show ?thesis
    by (simp add: pow2_1024)
qed simp_all

text \<open>Rounding does not cross a double.\<close>

lemma fl_ge:
  assumes "fl c = Fin c" and "c \<le> q"
  shows "\<not> xlt (fl q) (Fin c)"
proof -
  from assms(1) have c: "rnd c = c" "- pow2 1024 < c"
    by (simp_all add: fl_Fin_iff)
  with rnd_mono [OF assms(2)] have le: "c \<le> rnd q" "- pow2 1024 < rnd q"
    by simp_all
  show ?thesis
  proof (cases "fl q")
    case (Fin v)
    then have "v = rnd q"
      by (simp add: fl_Fin_iff)
    with le show ?thesis
      by (simp add: Fin)
  next
    case NInf
    with le show ?thesis
      by (simp add: fl_NInf_iff)
  qed simp_all
qed

lemma fl_le:
  assumes "fl c = Fin c" and "q \<le> c"
  shows "\<not> xlt (Fin c) (fl q)"
proof -
  from assms(1) have c: "rnd c = c" "c < pow2 1024"
    by (simp_all add: fl_Fin_iff)
  with rnd_mono [OF assms(2)] have le: "rnd q \<le> c" "rnd q < pow2 1024"
    by simp_all
  show ?thesis
  proof (cases "fl q")
    case (Fin v)
    then have "v = rnd q"
      by (simp add: fl_Fin_iff)
    with le show ?thesis
      by (simp add: Fin)
  next
    case PInf
    with le show ?thesis
      by (simp add: fl_PInf_iff)
  qed simp_all
qed

section \<open>Numbers that are not negative\<close>

text \<open>
  \<open>\<not> xlt x (Fin 0)\<close> is Python's \<open>not (x < 0)\<close>: a number that is not negative, an
  infinity above, or a NaN.
\<close>

lemma xadd_not_neg:
  "\<not> xlt p (Fin 0) \<Longrightarrow> \<not> xlt q (Fin 0) \<Longrightarrow> \<not> xlt (xadd p q) (Fin 0)"
  by (cases p; cases q) (simp_all add: fl_not_neg)

lemma xmul_not_neg:
  "\<not> xlt p (Fin 0) \<Longrightarrow> \<not> xlt q (Fin 0) \<Longrightarrow> \<not> xlt (xmul p q) (Fin 0)"
  by (cases p; cases q) (simp_all add: fl_not_neg)

lemma to_float_Inr: "to_float z = Inr p \<longleftrightarrow> (\<exists>q. fl (of_int z) = Fin q \<and> p = Fin q)"
  by (auto simp: to_float_def split: xval.splits)

lemma to_float_not_neg:
  assumes "to_float z = Inr p" and "0 \<le> z"
  shows "\<not> xlt p (Fin 0)"
proof -
  from assms(1) have "p = fl (of_int z)"
    by (auto simp: to_float_Inr)
  with assms(2) show ?thesis
    by (simp add: fl_not_neg)
qed

lemma as_float_not_neg:
  "as_float u = Inr p \<Longrightarrow> \<not> xlt (val u) (Fin 0) \<Longrightarrow> \<not> xlt p (Fin 0)"
  by (cases u) (auto dest: to_float_not_neg)

lemma py_int_not_neg:
  "py_int u = Inr z \<Longrightarrow> \<not> xlt (val u) (Fin 0) \<Longrightarrow> 0 \<le> z"
  by (cases u rule: py_int.cases) auto

lemma fl_minus_one: "fl (- 1) = Fin (- 1)"
  using fl_of_int [of "- 1"] by simp

lemma fl_one: "fl 1 = Fin 1"
  using fl_of_int [of 1] by simp

text \<open>A rate of at least -100 gives a factor \<open>1 + t / 100\<close> that is not negative.\<close>

lemma factor_not_neg:
  assumes "div100 t = Inr r" and "\<not> xlt (val t) (Fin (- 100))"
  shows "\<not> xlt (xadd (Fin 1) r) (Fin 0)"
proof -
  have step: "\<not> xlt (xadd (Fin 1) (fl (q / 100))) (Fin 0)" if "- 100 \<le> q" for q :: rat
  proof -
    from that have "- 1 \<le> q / 100" by simp
    from fl_ge [OF fl_minus_one this] show ?thesis
      by (cases "fl (q / 100)") (simp_all add: fl_not_neg)
  qed
  show ?thesis
  proof (cases t rule: div100.cases)
    case (1 z)
    with assms have "- 100 \<le> (of_int z :: rat)" "r = fl (of_int z / 100)"
      by (auto split: xval.splits)
    with step [of "of_int z"] show ?thesis by simp
  next
    case (2 q)
    with assms have "- 100 \<le> q" "r = fl (q / 100)"
      by auto
    with step [of q] show ?thesis by simp
  qed (use assms in simp_all)
qed

lemma growth_not_neg:
  assumes "growth t a b = Inr g"
    and "\<not> xlt (val t) (Fin (- 100))"
    and "\<not> xlt (val a) (Fin 0)" and "\<not> xlt (val b) (Fin 0)"
  shows "0 \<le> g"
proof -
  from assms(1) obtain r p q where r: "div100 t = Inr r" and p: "as_float b = Inr p"
    and q: "as_float a = Inr q"
    and g: "py_int (PFloat (xadd (xmul p (xadd (Fin 1) r)) q)) = Inr g"
    by (auto simp: growth_def split: sum.splits)
  have "\<not> xlt (xadd (xmul p (xadd (Fin 1) r)) q) (Fin 0)"
    by (intro xadd_not_neg xmul_not_neg factor_not_neg [OF r assms(2)]
        as_float_not_neg [OF p assms(4)] as_float_not_neg [OF q assms(3)])
  with py_int_not_neg [OF g] show ?thesis by simp
qed

text \<open>
  A withdrawal that the guard lets through leaves a balance that is not negative. Either
  both numbers are \<open>int\<close>s or the withdrawal amount is a \<open>float\<close>.
\<close>

lemma py_sub_not_neg:
  assumes "py_sub u b = Inr v" and "\<not> py_gt b u" and "is_double b"
    and "(\<exists>z. u = PInt z) \<or> (\<exists>x. b = PFloat x)"
  shows "\<not> xlt (val v) (Fin 0)"
proof (cases u)
  case (PInt z)
  show ?thesis
  proof (cases b)
    case (PInt k)
    with \<open>u = PInt z\<close> assms(1,2) show ?thesis
      by (auto simp: py_gt_def)
  next
    case (PFloat x)
    with \<open>u = PInt z\<close> assms(1) obtain p where p: "fl (of_int z) = Fin p"
      and v: "v = PFloat (xsub (Fin p) x)"
      by (auto simp: to_float_def split: xval.splits sum.splits)
    show ?thesis
    proof (cases x)
      case (Fin q)
      with PFloat \<open>u = PInt z\<close> assms(2,3) have "q \<le> of_int z" "fl q = Fin q"
        by (simp_all add: py_gt_def)
      from fl_ge [OF this(2,1)] p have "q \<le> p" by simp
      with v Fin show ?thesis
        by (simp add: xsub_def fl_not_neg)
    next
      case PInf
      with PFloat \<open>u = PInt z\<close> assms(2) show ?thesis
        by (simp add: py_gt_def)
    next
      case NInf
      with v show ?thesis by (simp add: xsub_def)
    next
      case NaN
      with v show ?thesis by (simp add: xsub_def)
    qed
  qed
next
  case (PFloat p)
  with assms(4) obtain x where b: "b = PFloat x" by auto
  with PFloat assms(1) have v: "v = PFloat (xsub p x)"
    by auto
  from PFloat b assms(2) have "\<not> xlt p x"
    by (simp add: py_gt_def)
  with v show ?thesis
    by (cases p; cases x) (simp_all add: xsub_def fl_not_neg)
qed

lemma as_float_error: "as_float u = Inl e \<Longrightarrow> e = OverflowError"
  by (cases u) (auto simp: to_float_def split: xval.splits)

lemma py_sub_error: "py_sub u v = Inl e \<Longrightarrow> e = OverflowError"
  by (cases "(u, v)" rule: py_sub.cases)
    (auto split: sum.splits dest: as_float_error)

lemma py_int_error: "py_int u = Inl e \<Longrightarrow> e = OverflowError \<or> e = NanConversion"
  by (cases u rule: py_int.cases) auto

lemma growth_error: "growth t a b = Inl e \<Longrightarrow> e = OverflowError \<or> e = NanConversion"
proof -
  have "div100 u = Inl e \<Longrightarrow> e = OverflowError" for u
    by (cases u rule: div100.cases) (auto split: xval.splits)
  then show "growth t a b = Inl e \<Longrightarrow> e = OverflowError \<or> e = NanConversion"
    by (auto simp: growth_def split: sum.splits dest: py_int_error as_float_error)
qed

section \<open>The pass over the goals of one month\<close>

subsection \<open>Removing a goal\<close>

lemma remove_first_values:
  "val v \<in> val ` set xs \<Longrightarrow>
     add_mset (val v) (mset (map val (remove_first v xs))) = mset (map val xs)"
  by (induction xs) auto

lemma subset_add_mset: "A \<subseteq># B \<Longrightarrow> A \<subseteq># add_mset x B"
  using mset_subset_eq_add_left [of B "{#x#}"] by (auto intro: subset_mset.order_trans)

lemma remove_first_subset: "mset (remove_first v xs) \<subseteq># mset xs"
  by (induction xs) (auto intro: subset_add_mset)

lemma remove_first_length:
  "val v \<in> val ` set xs \<Longrightarrow> Suc (length (remove_first v xs)) = length xs"
  by (induction xs) auto

lemma values_head:
  assumes "mset (map val (g # gs)) \<subseteq># mset (map val xs)"
  shows "val g \<in> val ` set xs"
proof -
  from assms have "val g \<in># mset (map val xs)"
    by (auto dest: mset_subset_eq_insertD)
  then show ?thesis by simp
qed

lemma values_tail:
  assumes "mset (map val (g # gs)) \<subseteq># mset (map val xs)"
  shows "mset (map val gs) \<subseteq># mset (map val (remove_first g xs))"
proof -
  from remove_first_values [OF values_head [OF assms]] assms
  have "add_mset (val g) (mset (map val gs))
      \<subseteq># add_mset (val g) (mset (map val (remove_first g xs)))"
    by simp
  then show ?thesis by simp
qed

lemma values_skip:
  assumes "mset (map val (g # gs)) \<subseteq># mset (map val xs)"
  shows "mset (map val gs) \<subseteq># mset (map val xs)"
proof -
  have "mset (map val gs) \<subseteq># mset (map val (g # gs))"
    by (simp add: subset_add_mset)
  then show ?thesis
    using assms by (rule subset_mset.order_trans)
qed

subsection \<open>One goal of the snapshot\<close>

lemma goal_body_eq:
  assumes "val goal \<in> val ` set (h ! goals s)"
  shows "goal_body b goal h s =
     (if py_gt (y0 s) goal then
        (if py_gt b (y0 s) then (h, Inl InvalidWithdrawal)
         else
           (case py_sub (y0 s) b of
              Inl e \<Rightarrow> (h, Inl e)
            | Inr v \<Rightarrow>
                (h[goals s := remove_first goal (h ! goals s)],
                 Inr (s\<lparr>y0 := v, withdraw_months := withdraw_months s @ [x0 s + 1]\<rparr>))))
      else (h, Inr s))"
  using assms by (simp add: goal_body_def list_remove_def Let_def split: sum.splits)

lemma goal_body_Inr:
  assumes "goal_body b goal h s = (h', Inr s')"
  shows "(h' = h \<and> s' = s \<and> \<not> py_gt (y0 s) goal) \<or>
         (py_gt (y0 s) goal \<and> \<not> py_gt b (y0 s) \<and> val goal \<in> val ` set (h ! goals s) \<and>
          h' = h[goals s := remove_first goal (h ! goals s)] \<and>
          (\<exists>v. py_sub (y0 s) b = Inr v \<and>
               s' = s\<lparr>y0 := v, withdraw_months := withdraw_months s @ [x0 s + 1]\<rparr>))"
  using assms
  by (auto simp: goal_body_def list_remove_def Let_def split: if_splits sum.splits)

lemma goal_body_heap:
  "\<exists>l. fst (goal_body b goal h s) = h[goals s := l]"
proof (cases "snd (goal_body b goal h s)")
  case (Inl e)
  then have "fst (goal_body b goal h s) = h"
    by (auto simp: goal_body_def list_remove_def Let_def split: if_splits sum.splits)
  then have "fst (goal_body b goal h s) = h[goals s := h ! goals s]"
    by simp
  then show ?thesis ..
next
  case (Inr s')
  then have "goal_body b goal h s = (fst (goal_body b goal h s), Inr s')"
    by (metis prod.collapse)
  from goal_body_Inr [OF this] show ?thesis
    by (metis list_update_id)
qed

lemma goal_body_error:
  assumes "goal_body b goal h s = (h', Inl e)" and "val goal \<in> val ` set (h ! goals s)"
  shows "h' = h \<and> (e = InvalidWithdrawal \<or> e = OverflowError)"
  using assms
  by (auto simp: goal_body_eq split: if_splits sum.splits dest: py_sub_error)

lemma for_goals_append:
  "for_goals b (xs @ ys) h s =
     (case for_goals b xs h s of
        (h', Inl e) \<Rightarrow> (h', Inl e)
      | (h', Inr s') \<Rightarrow> for_goals b ys h' s')"
  by (induction xs arbitrary: h s) (auto split: prod.splits sum.splits)

text \<open>The whole effect of a pass that ends without an exception.\<close>

lemma for_goals_Inr:
  assumes "for_goals b gs h s = (h', Inr s')"
    and "goals s < length h"
    and "mset (map val (gs @ rest)) \<subseteq># mset (map val (h ! goals s))"
  shows "\<exists>k l v. withdrawn k b (y0 s) = Inr v
           \<and> s' = s\<lparr>y0 := v, withdraw_months := withdraw_months s @ replicate k (x0 s + 1)\<rparr>
           \<and> h' = h[goals s := l] \<and> k \<le> length gs
           \<and> mset l \<subseteq># mset (h ! goals s) \<and> length l + k = length (h ! goals s)
           \<and> mset (map val rest) \<subseteq># mset (map val l)"
  using assms
proof (induction gs arbitrary: h s)
  case Nil
  have "s = s\<lparr>y0 := y0 s, withdraw_months := withdraw_months s @ replicate 0 (x0 s + 1)\<rparr>"
    by simp
  moreover have "h = h[goals s := h ! goals s]"
    by simp
  moreover have "withdrawn 0 b (y0 s) = Inr (y0 s)"
    by simp
  ultimately show ?case
    using Nil.prems
    by (intro exI [of _ 0] exI [of _ "h ! goals s"] exI [of _ "y0 s"]) auto
next
  case (Cons g gs)
  then obtain h1 s1 where gb: "goal_body b g h s = (h1, Inr s1)"
    and rest: "for_goals b gs h1 s1 = (h', Inr s')"
    by (auto split: prod.splits sum.splits)
  from Cons.prems(3) have all: "mset (map val (g # (gs @ rest))) \<subseteq># mset (map val (h ! goals s))"
    by simp
  from goal_body_Inr [OF gb] show ?case
  proof (elim disjE conjE exE)
    assume same: "h1 = h" "s1 = s"
    from Cons.IH [OF rest [unfolded same] Cons.prems(2) values_skip [OF all]]
    show ?thesis by (auto intro: le_SucI)
  next
    fix v1
    let ?l1 = "remove_first g (h ! goals s)"
    assume fired: "val g \<in> val ` set (h ! goals s)" "h1 = h[goals s := ?l1]"
      "py_sub (y0 s) b = Inr v1"
      "s1 = s\<lparr>y0 := v1, withdraw_months := withdraw_months s @ [x0 s + 1]\<rparr>"
    have g1: "goals s1 = goals s" "goals s1 < length h1" "h1 ! goals s1 = ?l1"
      using fired Cons.prems(2) by simp_all
    from values_tail [OF all] g1 have sub: "mset (map val (gs @ rest)) \<subseteq># mset (map val (h1 ! goals s1))"
      by simp
    from Cons.IH [OF rest g1(2) sub]
    obtain k l v where k: "withdrawn k b (y0 s1) = Inr v"
      "s' = s1\<lparr>y0 := v, withdraw_months := withdraw_months s1 @ replicate k (x0 s1 + 1)\<rparr>"
      "h' = h1[goals s1 := l]" "k \<le> length gs" "mset l \<subseteq># mset (h1 ! goals s1)"
      "length l + k = length (h1 ! goals s1)" "mset (map val rest) \<subseteq># mset (map val l)"
      by blast
    have "withdrawn (Suc k) b (y0 s) = Inr v"
      using k(1) fired(3,4) by simp
    moreover have "s' = s\<lparr>y0 := v,
                withdraw_months := withdraw_months s @ replicate (Suc k) (x0 s + 1)\<rparr>"
      using k(2) fired(4) by (simp add: replicate_app_Cons_same)
    moreover have "h' = h[goals s := l]"
      using k(3) fired(2) g1(1) by simp
    moreover have "mset l \<subseteq># mset (h ! goals s)"
      using k(5) g1(3) remove_first_subset [of g "h ! goals s"]
      by (auto intro: subset_mset.order_trans)
    moreover have "length l + Suc k = length (h ! goals s)"
      using k(6) g1(3) remove_first_length [OF fired(1)] by simp
    ultimately show ?thesis
      using k(4,7) by (intro exI [of _ "Suc k"] exI [of _ l] exI [of _ v]) auto
  qed
qed

lemma goal_body_goals:
  "goal_body b g h s = (h', Inr s') \<Longrightarrow> goals s' = goals s"
  by (auto dest: goal_body_Inr)

lemma for_goals_goals:
  "for_goals b gs h s = (h', Inr s') \<Longrightarrow> goals s' = goals s"
proof (induction gs arbitrary: h s)
  case Nil
  then show ?case by simp
next
  case (Cons g gs)
  then show ?case
    by (auto split: prod.splits sum.splits dest: goal_body_goals)
qed

lemma for_goals_heap:
  "\<exists>l. fst (for_goals b gs h s) = h[goals s := l]"
proof (induction gs arbitrary: h s)
  case Nil
  have "fst (for_goals b [] h s) = h[goals s := h ! goals s]"
    by simp
  then show ?case ..
next
  case (Cons g gs)
  obtain h1 r where gb: "goal_body b g h s = (h1, r)"
    by (cases "goal_body b g h s")
  from goal_body_heap [of b g h s] gb obtain l1 where h1: "h1 = h[goals s := l1]"
    by auto
  show ?case
  proof (cases r)
    case (Inl e)
    with gb h1 show ?thesis by auto
  next
    case (Inr s1)
    with gb goal_body_goals [of b g h s h1 s1] have "goals s1 = goals s"
      by auto
    moreover from Cons.IH [of h1 s1] obtain l where "fst (for_goals b gs h1 s1) = h1[goals s1 := l]"
      by blast
    ultimately have "fst (for_goals b (g # gs) h s) = h[goals s := l]"
      using gb Inr h1 by simp
    then show ?thesis ..
  qed
qed

text \<open>The pass over \<open>pre @ goal # post\<close>, split at \<open>goal\<close>.\<close>

lemma for_goals_at:
  assumes "goals s < length h"
    and "mset (map val (pre @ goal # post)) \<subseteq># mset (map val (h ! goals s))"
    and "for_goals b pre h s = (h1, Inr s1)"
  shows "for_goals b (pre @ goal # post) h s =
      (if py_gt (y0 s1) goal then
         (if py_gt b (y0 s1) then (h1, Inl InvalidWithdrawal)
          else
            (case py_sub (y0 s1) b of
               Inl e \<Rightarrow> (h1, Inl e)
             | Inr v \<Rightarrow>
                 for_goals b post (h1[goals s1 := remove_first goal (h1 ! goals s1)])
                   (s1\<lparr>y0 := v, withdraw_months := withdraw_months s1 @ [x0 s1 + 1]\<rparr>)))
       else for_goals b post h1 s1)"
proof -
  from for_goals_Inr [OF assms(3,1), of "goal # post"] assms(2)
  obtain l where "goals s1 = goals s" "h1 = h[goals s := l]"
    "mset (map val (goal # post)) \<subseteq># mset (map val l)"
    by auto
  with assms(1) values_head [of goal post l]
  have "val goal \<in> val ` set (h1 ! goals s1)"
    by simp
  from goal_body_eq [OF this, of b] assms(3) show ?thesis
    by (simp add: for_goals_append split: sum.splits)
qed

text \<open>The state after the first goal of a pass, for the rest of the pass.\<close>

lemma for_goals_next:
  assumes "goal_body b g h s = (h1, Inr s1)" and "goals s < length h"
    and "mset (map val (g # gs)) \<subseteq># mset (map val (h ! goals s))"
  shows "goals s1 < length h1" and "mset (map val gs) \<subseteq># mset (map val (h1 ! goals s1))"
proof -
  from assms(1) have one: "for_goals b [g] h s = (h1, Inr s1)"
    by simp
  from assms(3) have "mset (map val ([g] @ gs)) \<subseteq># mset (map val (h ! goals s))"
    by simp
  from for_goals_Inr [OF one assms(2) this] assms(2)
  show "goals s1 < length h1" and "mset (map val gs) \<subseteq># mset (map val (h1 ! goals s1))"
    by auto
qed

text \<open>A pass raises \<open>InvalidWithdrawal\<close> exactly at a goal below a balance below the withdrawal.\<close>

lemma for_goals_invalid_iff:
  assumes "goals s < length h"
    and "mset (map val gs) \<subseteq># mset (map val (h ! goals s))"
  shows "for_goals b gs h s = (h', Inl InvalidWithdrawal) \<longleftrightarrow>
         (\<exists>pre g post s1. gs = pre @ g # post \<and> for_goals b pre h s = (h', Inr s1)
            \<and> py_gt (y0 s1) g \<and> py_gt b (y0 s1))"
    (is "?L \<longleftrightarrow> ?R")
proof
  assume ?R
  then obtain pre g post s1 where gs: "gs = pre @ g # post"
    and pre: "for_goals b pre h s = (h', Inr s1)" and g: "py_gt (y0 s1) g" "py_gt b (y0 s1)"
    by blast
  from assms(2) gs have "mset (map val (pre @ g # post)) \<subseteq># mset (map val (h ! goals s))"
    by simp
  from for_goals_at [OF assms(1) this pre] g gs show ?L
    by simp
next
  assume ?L
  then show ?R
    using assms
  proof (induction gs arbitrary: h s)
    case Nil
    then show ?case by simp
  next
    case (Cons g gs)
    from values_head [OF Cons.prems(3)] have g_in: "val g \<in> val ` set (h ! goals s)" .
    obtain h1 r where gb: "goal_body b g h s = (h1, r)"
      by (cases "goal_body b g h s")
    show ?case
    proof (cases r)
      case (Inl e)
      with gb Cons.prems(1) have "goal_body b g h s = (h', Inl InvalidWithdrawal)"
        by simp
      with goal_body_eq [OF g_in, of b] have "py_gt (y0 s) g \<and> py_gt b (y0 s) \<and> h' = h"
        by (auto split: if_splits sum.splits dest: py_sub_error)
      moreover have "for_goals b [] h s = (h, Inr s)" by simp
      ultimately have "g # gs = [] @ g # gs \<and> for_goals b [] h s = (h', Inr s)
          \<and> py_gt (y0 s) g \<and> py_gt b (y0 s)"
        by simp
      then show ?thesis by blast
    next
      case (Inr s1)
      with gb have gb': "goal_body b g h s = (h1, Inr s1)" by simp
      from Cons.prems(1) gb' have "for_goals b gs h1 s1 = (h', Inl InvalidWithdrawal)"
        by simp
      from Cons.IH [OF this for_goals_next [OF gb' Cons.prems(2,3)]]
      obtain pre g' post s2 where "gs = pre @ g' # post"
        "for_goals b pre h1 s1 = (h', Inr s2)" "py_gt (y0 s2) g'" "py_gt b (y0 s2)"
        by blast
      with gb' have "g # gs = (g # pre) @ g' # post \<and>
          for_goals b (g # pre) h s = (h', Inr s2) \<and> py_gt (y0 s2) g' \<and> py_gt b (y0 s2)"
        by simp
      then show ?thesis by blast
    qed
  qed
qed

lemma for_goals_error:
  assumes "for_goals b gs h s = (h', Inl e)"
    and "goals s < length h"
    and "mset (map val gs) \<subseteq># mset (map val (h ! goals s))"
  shows "e = InvalidWithdrawal \<or> e = OverflowError"
  using assms
proof (induction gs arbitrary: h s)
  case Nil
  then show ?case by simp
next
  case (Cons g gs)
  from values_head [OF Cons.prems(3)] have g_in: "val g \<in> val ` set (h ! goals s)" .
  obtain h1 r where gb: "goal_body b g h s = (h1, r)"
    by (cases "goal_body b g h s")
  show ?case
  proof (cases r)
    case (Inl e1)
    with gb Cons.prems(1) goal_body_error [OF _ g_in, of b h1 e1] show ?thesis
      by auto
  next
    case (Inr s1)
    with gb have gb': "goal_body b g h s = (h1, Inr s1)" by simp
    from Cons.prems(1) gb' have "for_goals b gs h1 s1 = (h', Inl e)"
      by simp
    from Cons.IH [OF this for_goals_next [OF gb' Cons.prems(2,3)]] show ?thesis .
  qed
qed

text \<open>The locals after a pass, whatever the store holds.\<close>

lemma for_goals_locals:
  assumes "for_goals b gs h s = (h', Inr s')"
  shows "\<exists>k v. withdrawn k b (y0 s) = Inr v \<and> k \<le> length gs \<and>
           s' = s\<lparr>y0 := v, withdraw_months := withdraw_months s @ replicate k (x0 s + 1)\<rparr>"
  using assms
proof (induction gs arbitrary: h s)
  case Nil
  have "s = s\<lparr>y0 := y0 s, withdraw_months := withdraw_months s @ replicate 0 (x0 s + 1)\<rparr>"
    by simp
  moreover have "withdrawn 0 b (y0 s) = Inr (y0 s)" by simp
  ultimately show ?case
    using Nil by (intro exI [of _ 0] exI [of _ "y0 s"]) simp
next
  case (Cons g gs)
  then obtain h1 s1 where gb: "goal_body b g h s = (h1, Inr s1)"
    and rest: "for_goals b gs h1 s1 = (h', Inr s')"
    by (auto split: prod.splits sum.splits)
  from Cons.IH [OF rest] obtain k v where
    k: "withdrawn k b (y0 s1) = Inr v" "k \<le> length gs"
      "s' = s1\<lparr>y0 := v, withdraw_months := withdraw_months s1 @ replicate k (x0 s1 + 1)\<rparr>"
    by blast
  from goal_body_Inr [OF gb] show ?case
  proof (elim disjE conjE exE)
    assume "s1 = s"
    with k have "withdrawn k b (y0 s) = Inr v \<and> k \<le> length (g # gs) \<and>
        s' = s\<lparr>y0 := v, withdraw_months := withdraw_months s @ replicate k (x0 s + 1)\<rparr>"
      by simp
    then show ?thesis by blast
  next
    fix v1
    assume "py_sub (y0 s) b = Inr v1"
      "s1 = s\<lparr>y0 := v1, withdraw_months := withdraw_months s @ [x0 s + 1]\<rparr>"
    with k have "withdrawn (Suc k) b (y0 s) = Inr v \<and> Suc k \<le> length (g # gs) \<and>
        s' = s\<lparr>y0 := v, withdraw_months := withdraw_months s @ replicate (Suc k) (x0 s + 1)\<rparr>"
      by (simp add: replicate_app_Cons_same)
    then show ?thesis by blast
  qed
qed

section \<open>One month\<close>

lemma begin_month_Inr:
  "begin_month t a s = Inr s1 \<longleftrightarrow>
     (\<exists>z g. py_int (y0 s) = Inr z \<and> growth t a (y0 s) = Inr g \<and>
            s1 = s\<lparr>y_start := y_start s @ [z], y0 := PInt g\<rparr>)"
  by (auto simp: begin_month_def Let_def split: sum.splits)

lemma end_month_Inr:
  "end_month s = Inr s' \<longleftrightarrow>
     (\<exists>z. py_int (y0 s) = Inr z \<and> s' = s\<lparr>y := y s @ [z], x0 := x0 s + 1\<rparr>)"
  by (auto simp: end_month_def Let_def split: sum.splits)

lemma month_body_Inr_iff:
  "month_body t a b h s = (h', Inr s') \<longleftrightarrow>
     (\<exists>s1 s2. begin_month t a s = Inr s1 \<and> for_goals b (h ! goals s1) h s1 = (h', Inr s2)
        \<and> end_month s2 = Inr s')"
  by (auto simp: month_body_def split: sum.splits prod.splits)

lemma month_body_locals:
  assumes "month_body t a b h s = (h', Inr s')"
  shows "\<exists>k z g v z'. py_int (y0 s) = Inr z \<and> growth t a (y0 s) = Inr g
           \<and> withdrawn k b (PInt g) = Inr v \<and> py_int v = Inr z'
           \<and> s' = s\<lparr>x0 := x0 s + 1, y0 := v, y := y s @ [z'],
                     y_start := y_start s @ [z],
                     withdraw_months := withdraw_months s @ replicate k (x0 s + 1)\<rparr>"
proof -
  from assms obtain s1 s2 where b: "begin_month t a s = Inr s1"
    and p: "for_goals b (h ! goals s1) h s1 = (h', Inr s2)" and e: "end_month s2 = Inr s'"
    by (auto simp: month_body_Inr_iff)
  from b obtain z g where z: "py_int (y0 s) = Inr z" and g: "growth t a (y0 s) = Inr g"
    and s1: "s1 = s\<lparr>y_start := y_start s @ [z], y0 := PInt g\<rparr>"
    by (auto simp: begin_month_Inr)
  from for_goals_locals [OF p] obtain k v where k: "withdrawn k b (y0 s1) = Inr v"
    and s2: "s2 = s1\<lparr>y0 := v, withdraw_months := withdraw_months s1 @ replicate k (x0 s1 + 1)\<rparr>"
    by blast
  from e obtain z' where z': "py_int (y0 s2) = Inr z'"
    and s': "s' = s2\<lparr>y := y s2 @ [z'], x0 := x0 s2 + 1\<rparr>"
    by (auto simp: end_month_Inr)
  have "s' = s\<lparr>x0 := x0 s + 1, y0 := v, y := y s @ [z'],
                     y_start := y_start s @ [z],
                     withdraw_months := withdraw_months s @ replicate k (x0 s + 1)\<rparr>"
    unfolding s' s2 s1 by simp
  moreover from k s1 have "withdrawn k b (PInt g) = Inr v" by simp
  moreover from z' s2 have "py_int v = Inr z'" by simp
  ultimately show ?thesis
    using z g by blast
qed

lemma month_body_Inr:
  assumes "month_body t a b h s = (h', Inr s')" and "goals s < length h"
  shows "\<exists>k l. length (withdraw_months s') = length (withdraw_months s) + k
           \<and> goals s' = goals s
           \<and> h' = h[goals s := l] \<and> mset l \<subseteq># mset (h ! goals s)
           \<and> length l + k = length (h ! goals s)"
proof -
  from assms(1) obtain s1 s2 where b: "begin_month t a s = Inr s1"
    and p: "for_goals b (h ! goals s1) h s1 = (h', Inr s2)" and e: "end_month s2 = Inr s'"
    by (auto simp: month_body_Inr_iff)
  from b have s1: "goals s1 = goals s" "withdraw_months s1 = withdraw_months s"
    by (auto simp: begin_month_Inr)
  have "goals s1 < length h" "mset (map val ((h ! goals s1) @ [])) \<subseteq># mset (map val (h ! goals s1))"
    using assms(2) s1 by simp_all
  from for_goals_Inr [OF p this]
  obtain k l v where k:
    "s2 = s1\<lparr>y0 := v, withdraw_months := withdraw_months s1 @ replicate k (x0 s1 + 1)\<rparr>"
    "h' = h[goals s1 := l]" "mset l \<subseteq># mset (h ! goals s1)"
    "length l + k = length (h ! goals s1)"
    by blast
  from e have "goals s' = goals s2" "withdraw_months s' = withdraw_months s2"
    by (auto simp: end_month_Inr)
  with k s1 show ?thesis
    by auto
qed

lemma month_body_goals:
  "month_body t a b h s = (h', Inr s') \<Longrightarrow> goals s' = goals s"
  by (auto simp: month_body_Inr_iff begin_month_Inr end_month_Inr dest!: for_goals_goals)

lemma month_body_heap:
  "\<exists>l. fst (month_body t a b h s) = h[goals s := l]"
proof (cases "begin_month t a s")
  case (Inl e)
  then have "fst (month_body t a b h s) = h[goals s := h ! goals s]"
    by (simp add: month_body_def)
  then show ?thesis ..
next
  case (Inr s1)
  then have g: "goals s1 = goals s"
    by (auto simp: begin_month_Inr)
  from for_goals_heap [of b "h ! goals s1" h s1] g
  obtain l where "fst (for_goals b (h ! goals s1) h s1) = h[goals s := l]"
    by auto
  with Inr have "fst (month_body t a b h s) = h[goals s := l]"
    by (auto simp: month_body_def split: prod.splits sum.splits)
  then show ?thesis ..
qed

lemma begin_month_error:
  "begin_month t a s = Inl e \<Longrightarrow> e = OverflowError \<or> e = NanConversion"
  by (auto simp: begin_month_def Let_def split: sum.splits dest: py_int_error growth_error)

lemma end_month_error:
  "end_month s = Inl e \<Longrightarrow> e = OverflowError \<or> e = NanConversion"
  by (auto simp: end_month_def Let_def split: sum.splits dest: py_int_error)

lemma month_body_error:
  assumes "month_body t a b h s = (h', Inl e)" and "goals s < length h"
  shows "e \<noteq> RemoveMissing"
proof (cases "begin_month t a s")
  case (Inl e1)
  with assms(1) begin_month_error [OF Inl] show ?thesis
    by (auto simp: month_body_def)
next
  case (Inr s1)
  then have g: "goals s1 = goals s"
    by (auto simp: begin_month_Inr)
  obtain h1 r where p: "for_goals b (h ! goals s1) h s1 = (h1, r)"
    by (cases "for_goals b (h ! goals s1) h s1")
  show ?thesis
  proof (cases r)
    case (Inl e1)
    with p have "for_goals b (h ! goals s1) h s1 = (h1, Inl e1)" by simp
    from for_goals_error [OF this] g assms(2) have "e1 = InvalidWithdrawal \<or> e1 = OverflowError"
      by simp
    with assms(1) Inr p Inl show ?thesis
      by (auto simp: month_body_def)
  next
    case r: (Inr s2)
    with assms(1) Inr p obtain e2 where "end_month s2 = Inl e2" "e = e2"
      by (auto simp: month_body_def split: sum.splits)
    with end_month_error [of s2 e2] show ?thesis by auto
  qed
qed

section \<open>The loop over the months\<close>

lemma while_loop_stop:
  "\<not> x0 s < limit \<Longrightarrow> while_loop t a b limit h s = (h, Inr s)"
  by (subst while_loop.simps) simp

lemma while_loop_step:
  "x0 s < limit \<Longrightarrow> while_loop t a b limit h s =
     (case month_body t a b h s of
        (h', Inl e) \<Rightarrow> (h', Inl e)
      | (h', Inr s') \<Rightarrow> while_loop t a b limit h' s')"
  by (subst while_loop.simps) simp

text \<open>An invariant of the months holds when the loop returns, and where it raises.\<close>

lemma while_loop_invariant:
  assumes "while_loop t a b limit h s = (h', Inr s')"
    and "P h s"
    and "\<And>h s h1 s1. P h s \<Longrightarrow> x0 s < limit \<Longrightarrow> month_body t a b h s = (h1, Inr s1) \<Longrightarrow> P h1 s1"
  shows "P h' s' \<and> \<not> x0 s' < limit"
  using assms
proof (induction t a b limit h s rule: while_loop.induct)
  case (1 t a b limit h s)
  show ?case
  proof (cases "x0 s < limit")
    case False
    with "1.prems"(1,2) show ?thesis
      by (simp add: while_loop_stop)
  next
    case True
    with "1.prems"(1) obtain h1 s1 where m: "month_body t a b h s = (h1, Inr s1)"
      and w: "while_loop t a b limit h1 s1 = (h', Inr s')"
      by (auto simp: while_loop_step split: prod.splits sum.splits)
    from "1.prems"(3) [OF "1.prems"(2) True m] have "P h1 s1" .
    from "1.IH" [OF True m [symmetric] refl w this "1.prems"(3)]
    show ?thesis by simp
  qed
qed

lemma while_loop_raises:
  assumes "while_loop t a b limit h s = (h', Inl e)"
    and "P h s"
    and "\<And>h s h1 s1. P h s \<Longrightarrow> x0 s < limit \<Longrightarrow> month_body t a b h s = (h1, Inr s1) \<Longrightarrow> P h1 s1"
  shows "\<exists>h1 s1. P h1 s1 \<and> x0 s1 < limit \<and> month_body t a b h1 s1 = (h', Inl e)"
  using assms
proof (induction t a b limit h s rule: while_loop.induct)
  case (1 t a b limit h s)
  show ?case
  proof (cases "x0 s < limit")
    case False
    with "1.prems"(1) show ?thesis
      by (simp add: while_loop_stop)
  next
    case True
    obtain h1 r where m: "month_body t a b h s = (h1, r)"
      by (cases "month_body t a b h s")
    show ?thesis
    proof (cases r)
      case (Inl e1)
      with m True "1.prems"(1) have "month_body t a b h s = (h', Inl e)"
        by (simp add: while_loop_step)
      with True "1.prems"(2) show ?thesis by blast
    next
      case (Inr s1)
      with m True "1.prems"(1) have w: "while_loop t a b limit h1 s1 = (h', Inl e)"
        by (simp add: while_loop_step)
      from m Inr have m': "month_body t a b h s = (h1, Inr s1)" by simp
      from "1.prems"(3) [OF "1.prems"(2) True m'] have "P h1 s1" .
      from "1.IH" [OF True m' [symmetric] refl w this "1.prems"(3)]
      show ?thesis .
    qed
  qed
qed

text \<open>The loop to month \<open>limit\<close> passes through the state the loop to month \<open>m\<close> ends in.\<close>

lemma while_loop_split:
  assumes "m \<le> limit"
  shows "while_loop t a b limit h s =
     (case while_loop t a b m h s of
        (h1, Inl e) \<Rightarrow> (h1, Inl e)
      | (h1, Inr s1) \<Rightarrow> while_loop t a b limit h1 s1)"
  using assms
proof (induction t a b m h s rule: while_loop.induct)
  case (1 t a b m h s)
  show ?case
  proof (cases "x0 s < m")
    case False
    then show ?thesis by (simp add: while_loop_stop)
  next
    case True
    with "1.prems" have lt: "x0 s < limit" by simp
    obtain h1 r where mb: "month_body t a b h s = (h1, r)"
      by (cases "month_body t a b h s")
    show ?thesis
    proof (cases r)
      case (Inl e)
      with mb True lt show ?thesis
        by (simp add: while_loop_step)
    next
      case (Inr s1)
      with mb have m': "month_body t a b h s = (h1, Inr s1)" by simp
      from "1.IH" [OF True m' [symmetric] refl "1.prems"]
      show ?thesis
        using m' True lt by (simp add: while_loop_step)
    qed
  qed
qed

lemma while_loop_heap:
  "\<exists>l. fst (while_loop t a b limit h s) = h[goals s := l]"
proof (induction t a b limit h s rule: while_loop.induct)
  case (1 t a b limit h s)
  show ?case
  proof (cases "x0 s < limit")
    case False
    then have "fst (while_loop t a b limit h s) = h[goals s := h ! goals s]"
      by (simp add: while_loop_stop)
    then show ?thesis ..
  next
    case True
    obtain h1 r where mb: "month_body t a b h s = (h1, r)"
      by (cases "month_body t a b h s")
    from month_body_heap [of t a b h s] mb obtain l1 where h1: "h1 = h[goals s := l1]"
      by auto
    show ?thesis
    proof (cases r)
      case (Inl e)
      with mb True h1 have "fst (while_loop t a b limit h s) = h[goals s := l1]"
        by (simp add: while_loop_step)
      then show ?thesis ..
    next
      case (Inr s1)
      with mb have m': "month_body t a b h s = (h1, Inr s1)" by simp
      from "1.IH" [OF True m' [symmetric] refl]
      obtain l where "fst (while_loop t a b limit h1 s1) = h1[goals s1 := l]"
        by blast
      with m' True h1 month_body_goals [OF m']
      have "fst (while_loop t a b limit h s) = h[goals s := l]"
        by (simp add: while_loop_step)
      then show ?thesis ..
    qed
  qed
qed

lemma month_body_x0:
  "month_body t a b h s = (h', Inr s') \<Longrightarrow> x0 s' = x0 s + 1"
  by (auto dest: month_body_locals)

text \<open>Where the loop is after the months before a given one.\<close>

lemma while_loop_x0:
  assumes "while_loop t a b limit h s = (h', Inr s')" and "x0 s \<le> limit"
  shows "x0 s' = limit"
proof -
  let ?P = "\<lambda>(h1 :: heap) s1. x0 s1 \<le> limit"
  have "?P h2 s2"
    if "?P h1 s1" and "x0 s1 < limit" and mb: "month_body t a b h1 s1 = (h2, Inr s2)"
    for h1 s1 h2 s2
    using that month_body_x0 [OF mb] by auto
  with assms(2) have "?P h' s' \<and> \<not> x0 s' < limit"
    by (rule while_loop_invariant [OF assms(1), where P = ?P])
  then show ?thesis by simp
qed

lemma while_loop_goals:
  assumes "while_loop t a b limit h s = (h', Inr s')"
  shows "goals s' = goals s \<and> length h' = length h"
proof -
  let ?P = "\<lambda>h1 s1. goals s1 = goals s \<and> length h1 = length h"
  have "?P h2 s2"
    if "?P h1 s1" and "x0 s1 < limit" and mb: "month_body t a b h1 s1 = (h2, Inr s2)"
    for h1 s1 h2 s2
    using that month_body_goals [OF mb] month_body_heap [of t a b h1 s1] by auto
  moreover have "?P h s" by simp
  ultimately have "?P h' s' \<and> \<not> x0 s' < limit"
    by (rule while_loop_invariant [OF assms(1), where P = ?P, rotated])
  then show ?thesis by simp
qed

lemma while_loop_extend:
  assumes "while_loop t a b (x0 s) h0 s0 = (h, Inr s)"
    and "month_body t a b h s = (h1, Inr s1)"
  shows "while_loop t a b (x0 s1) h0 s0 = (h1, Inr s1)"
proof -
  from month_body_x0 [OF assms(2)] have x: "x0 s1 = x0 s + 1" .
  have "while_loop t a b (x0 s + 1) h0 s0 = while_loop t a b (x0 s + 1) h s"
    using while_loop_split [of "x0 s" "x0 s + 1" t a b h0 s0] assms(1) by simp
  also have "\<dots> = while_loop t a b (x0 s + 1) h1 s1"
    using assms(2) by (simp add: while_loop_step)
  also have "\<dots> = (h1, Inr s1)"
    using x by (simp add: while_loop_stop)
  finally show ?thesis
    using x by simp
qed

text \<open>A loop that raises does so in a month it reaches, from the state the months before leave.\<close>

lemma while_loop_raises_at:
  assumes "while_loop t a b limit h0 s0 = (h', Inl e)"
    and "x0 s0 = 0" and "goals s0 < length h0"
  shows "\<exists>m h1 s1. 0 \<le> m \<and> m < limit \<and> while_loop t a b m h0 s0 = (h1, Inr s1)
           \<and> goals s1 < length h1 \<and> month_body t a b h1 s1 = (h', Inl e)"
proof -
  let ?P = "\<lambda>h1 s1. goals s1 < length h1 \<and> 0 \<le> x0 s1 \<and>
              while_loop t a b (x0 s1) h0 s0 = (h1, Inr s1)"
  have "?P h0 s0"
    using assms(2,3) by (simp add: while_loop_stop)
  moreover have "?P h2 s2"
    if P: "?P h1 s1" and "x0 s1 < limit" and mb: "month_body t a b h1 s1 = (h2, Inr s2)"
    for h1 s1 h2 s2
  proof -
    from P have "while_loop t a b (x0 s1) h0 s0 = (h1, Inr s1)" by simp
    from while_loop_extend [OF this mb]
    have "while_loop t a b (x0 s2) h0 s0 = (h2, Inr s2)" .
    moreover from month_body_x0 [OF mb] P have "0 \<le> x0 s2" by auto
    moreover from P month_body_goals [OF mb] month_body_heap [of t a b h1 s1] mb
    have "goals s2 < length h2" by auto
    ultimately show ?thesis by simp
  qed
  ultimately obtain h1 s1 where "?P h1 s1" "x0 s1 < limit"
    "month_body t a b h1 s1 = (h', Inl e)"
    using while_loop_raises [OF assms(1), where P = ?P] by blast
  then show ?thesis by blast
qed

section \<open>The whole call\<close>

lemma newinvestment_eq:
  "newinvestment h t a travelgoals b limit initial_balance =
     (case py_int initial_balance of
        Inl e \<Rightarrow> (h, Inl e)
      | Inr z \<Rightarrow>
          (case while_loop t a b limit (h @ [h ! travelgoals]) (init_locals z (length h)) of
             (h', Inl e) \<Rightarrow> (h', Inl e)
           | (h', Inr s) \<Rightarrow> (h', Inr (y s, y_start s, withdraw_months s))))"
  by (simp add: newinvestment_def list_copy_def split: sum.splits)

lemma newinvestment_Inr:
  "newinvestment h t a travelgoals b limit initial_balance = (h', Inr (ya, yb, wm)) \<longleftrightarrow>
     (\<exists>z s. py_int initial_balance = Inr z \<and>
        while_loop t a b limit (h @ [h ! travelgoals]) (init_locals z (length h)) = (h', Inr s) \<and>
        ya = y s \<and> yb = y_start s \<and> wm = withdraw_months s)"
  by (auto simp: newinvestment_eq split: sum.splits prod.splits)

lemma init_locals_simps:
  "x0 (init_locals z g) = 0"
  "y0 (init_locals z g) = PInt z"
  "y (init_locals z g) = []"
  "y_start (init_locals z g) = []"
  "goals (init_locals z g) = g"
  "withdraw_months (init_locals z g) = []"
  by (simp_all add: init_locals_def)

text \<open>
  The working list stays at the address the copy was made at, it only loses entries, and
  it has lost as many as there are withdrawals.
\<close>

lemma working_month:
  assumes "goals s = length h0" and "h = h0 @ [l]" and "mset l \<subseteq># mset l0"
    and "length l + length (withdraw_months s) = length l0"
    and "month_body t a b h s = (h', Inr s')"
  shows "goals s' = length h0 \<and>
         (\<exists>l'. h' = h0 @ [l'] \<and> mset l' \<subseteq># mset l0
               \<and> length l' + length (withdraw_months s') = length l0)"
proof -
  from assms(1,2) have "goals s < length h" by simp
  from month_body_Inr [OF assms(5) this] obtain k l' where
    wm: "length (withdraw_months s') = length (withdraw_months s) + k"
    and g: "goals s' = goals s"
    and h': "h' = h[goals s := l']" and l': "mset l' \<subseteq># mset (h ! goals s)"
      "length l' + k = length (h ! goals s)"
    by blast
  from assms(1,2) h' have "h' = h0 @ [l']" by simp
  moreover from l' assms(1-3) have "mset l' \<subseteq># mset l0"
    by (auto intro: subset_mset.order_trans)
  moreover from l' assms(1,2,4) wm have "length l' + length (withdraw_months s') = length l0"
    by simp
  moreover from g assms(1) have "goals s' = length h0" by simp
  ultimately show ?thesis by blast
qed

lemma while_loop_working:
  assumes "while_loop t a b limit (h0 @ [l0]) (init_locals z (length h0)) = (h', Inr s')"
  shows "\<exists>l. h' = h0 @ [l] \<and> mset l \<subseteq># mset l0
             \<and> length l + length (withdraw_months s') = length l0"
proof -
  let ?P = "\<lambda>h s. goals s = length h0 \<and>
         (\<exists>l. h = h0 @ [l] \<and> mset l \<subseteq># mset l0
               \<and> length l + length (withdraw_months s) = length l0)"
  have "?P (h0 @ [l0]) (init_locals z (length h0))"
    by (simp add: init_locals_simps)
  moreover have "?P h1 s1"
    if "?P h s" "x0 s < limit" "month_body t a b h s = (h1, Inr s1)" for h s h1 s1
    using that working_month [of s h0 h _ l0 t a b h1 s1] by blast
  ultimately have "?P h' s' \<and> \<not> x0 s' < limit"
    by (rule while_loop_invariant [OF assms, where P = ?P])
  then show ?thesis by blast
qed

lemma while_loop_error:
  assumes "while_loop t a b limit (h0 @ [l0]) (init_locals z (length h0)) = (h', Inl e)"
  shows "e \<noteq> RemoveMissing"
proof -
  from while_loop_raises_at [OF assms] obtain h1 s1 where
    "goals s1 < length h1" "month_body t a b h1 s1 = (h', Inl e)"
    by (auto simp: init_locals_simps)
  then show ?thesis
    by (rule month_body_error [rotated])
qed

text \<open>The months logged by the loop: sorted, after the months done before, within the horizon.\<close>

lemma while_loop_months:
  assumes "while_loop t a b limit h s = (h', Inr s')"
    and "withdraw_months s = []"
  shows "sorted (withdraw_months s') \<and>
         (\<forall>m \<in> set (withdraw_months s'). x0 s < m \<and> m \<le> limit)"
proof -
  let ?P = "\<lambda>(h1 :: heap) s1. x0 s \<le> x0 s1 \<and> sorted (withdraw_months s1) \<and>
         (\<forall>m \<in> set (withdraw_months s1). x0 s < m \<and> m \<le> x0 s1 \<and> m \<le> limit)"
  have "?P h s"
    using assms(2) by simp
  moreover have "?P h2 s2"
    if P: "?P h1 s1" and lt: "x0 s1 < limit" and mb: "month_body t a b h1 s1 = (h2, Inr s2)"
    for h1 s1 h2 s2
  proof -
    from month_body_locals [OF mb] obtain k where
      x: "x0 s2 = x0 s1 + 1"
      and w: "withdraw_months s2 = withdraw_months s1 @ replicate k (x0 s1 + 1)"
      by auto
    from P have "sorted (withdraw_months s2)"
      unfolding w by (auto simp: sorted_append)
    with P lt x w show ?thesis
      by auto
  qed
  ultimately have "?P h' s' \<and> \<not> x0 s' < limit"
    by (rule while_loop_invariant [OF assms(1), where P = ?P])
  then show ?thesis by blast
qed

text \<open>The two series get one entry a month, and the loop stops at the horizon.\<close>

lemma while_loop_series:
  assumes "while_loop t a b limit h s = (h', Inr s')"
    and "x0 s = 0" and "y s = []" and "y_start s = []"
  shows "int (length (y s')) = max 0 limit \<and> int (length (y_start s')) = max 0 limit"
proof -
  let ?P = "\<lambda>(h1 :: heap) s1. 0 \<le> x0 s1 \<and> x0 s1 \<le> max 0 limit \<and>
         int (length (y s1)) = x0 s1 \<and> int (length (y_start s1)) = x0 s1"
  have "?P h s"
    using assms(2-4) by simp
  moreover have "?P h2 s2"
    if P: "?P h1 s1" and lt: "x0 s1 < limit" and mb: "month_body t a b h1 s1 = (h2, Inr s2)"
    for h1 s1 h2 s2
  proof -
    from month_body_locals [OF mb] obtain z z' where
      "x0 s2 = x0 s1 + 1" "y s2 = y s1 @ [z']" "y_start s2 = y_start s1 @ [z]"
      by auto
    with P lt show ?thesis by auto
  qed
  ultimately have "?P h' s' \<and> \<not> x0 s' < limit"
    by (rule while_loop_invariant [OF assms(1), where P = ?P])
  then show ?thesis by auto
qed

section \<open>Balances that are not negative\<close>

lemma goal_body_not_neg:
  assumes "goal_body b g h s = (h', Inr s')"
    and "\<not> xlt (val (y0 s)) (Fin 0)" and "is_double b"
    and "(\<exists>z. y0 s = PInt z) \<or> (\<exists>x. b = PFloat x)"
  shows "\<not> xlt (val (y0 s')) (Fin 0) \<and> ((\<exists>z. y0 s' = PInt z) \<or> (\<exists>x. b = PFloat x))"
proof -
  from goal_body_Inr [OF assms(1)] show ?thesis
  proof
    assume "h' = h \<and> s' = s \<and> \<not> py_gt (y0 s) g"
    with assms(2,4) show ?thesis by simp
  next
    assume "py_gt (y0 s) g \<and> \<not> py_gt b (y0 s) \<and> val g \<in> val ` set (h ! goals s) \<and>
          h' = h[goals s := remove_first g (h ! goals s)] \<and>
          (\<exists>v. py_sub (y0 s) b = Inr v \<and>
               s' = s\<lparr>y0 := v, withdraw_months := withdraw_months s @ [x0 s + 1]\<rparr>)"
    then obtain v where guard: "\<not> py_gt b (y0 s)" and v: "py_sub (y0 s) b = Inr v"
      and s': "y0 s' = v"
      by auto
    from py_sub_not_neg [OF v guard assms(3,4)] have "\<not> xlt (val v) (Fin 0)" .
    moreover have "(\<exists>z. v = PInt z) \<or> (\<exists>x. b = PFloat x)"
      using v assms(4) by (cases "(y0 s, b)" rule: py_sub.cases) (auto split: sum.splits)
    ultimately show ?thesis
      using s' by simp
  qed
qed

lemma for_goals_not_neg:
  assumes "for_goals b gs h s = (h', Inr s')"
    and "\<not> xlt (val (y0 s)) (Fin 0)" and "is_double b"
    and "(\<exists>z. y0 s = PInt z) \<or> (\<exists>x. b = PFloat x)"
  shows "\<not> xlt (val (y0 s')) (Fin 0)"
  using assms
proof (induction gs arbitrary: h s)
  case Nil
  then show ?case by simp
next
  case (Cons g gs)
  from Cons.prems(1) obtain h1 s1 where g: "goal_body b g h s = (h1, Inr s1)"
    and rest: "for_goals b gs h1 s1 = (h', Inr s')"
    by (auto split: prod.splits sum.splits)
  from goal_body_not_neg [OF g Cons.prems(2,3,4)]
  have "\<not> xlt (val (y0 s1)) (Fin 0)" "(\<exists>z. y0 s1 = PInt z) \<or> (\<exists>x. b = PFloat x)"
    by simp_all
  from Cons.IH [OF rest this(1) Cons.prems(3) this(2)] show ?case .
qed

text \<open>
  A month that starts from a balance that is not negative records two entries that are
  not negative and ends in such a balance, which is a number.
\<close>

lemma month_body_not_neg:
  assumes "month_body t a b h s = (h', Inr s')"
    and "\<not> xlt (val (y0 s)) (Fin 0)"
    and "\<not> xlt (val t) (Fin (- 100))" and "\<not> xlt (val a) (Fin 0)" and "is_double b"
  shows "\<exists>z z' q. y_start s' = y_start s @ [z] \<and> 0 \<le> z \<and> y s' = y s @ [z'] \<and> 0 \<le> z'
           \<and> val (y0 s') = Fin q \<and> 0 \<le> q"
proof -
  from assms(1) obtain s1 s2 where b: "begin_month t a s = Inr s1"
    and p: "for_goals b (h ! goals s1) h s1 = (h', Inr s2)" and e: "end_month s2 = Inr s'"
    by (auto simp: month_body_Inr_iff)
  from b obtain z g where z: "py_int (y0 s) = Inr z" and g: "growth t a (y0 s) = Inr g"
    and s1: "s1 = s\<lparr>y_start := y_start s @ [z], y0 := PInt g\<rparr>"
    by (auto simp: begin_month_Inr)
  from py_int_not_neg [OF z assms(2)] have z0: "0 \<le> z" .
  from growth_not_neg [OF g assms(3,4,2)] have "0 \<le> g" .
  with s1 have "\<not> xlt (val (y0 s1)) (Fin 0)" "(\<exists>z. y0 s1 = PInt z) \<or> (\<exists>x. b = PFloat x)"
    by simp_all
  from for_goals_not_neg [OF p this(1) assms(5) this(2)]
  have nn: "\<not> xlt (val (y0 s2)) (Fin 0)" .
  from for_goals_locals [OF p] s1 have ys: "y_start s2 = y_start s @ [z]" "y s2 = y s"
    by auto
  from e obtain z' where z': "py_int (y0 s2) = Inr z'"
    and s': "s' = s2\<lparr>y := y s2 @ [z'], x0 := x0 s2 + 1\<rparr>"
    by (auto simp: end_month_Inr)
  from py_int_not_neg [OF z' nn] have "0 \<le> z'" .
  moreover from z' nn obtain q where "val (y0 s2) = Fin q" "0 \<le> q"
    by (cases "y0 s2" rule: py_int.cases) auto
  ultimately show ?thesis
    using s' ys z0 by simp
qed

lemma while_loop_not_neg:
  assumes "while_loop t a b limit h s = (h', Inr s')"
    and "val (y0 s) = Fin q" and "0 \<le> q"
    and "\<not> xlt (val t) (Fin (- 100))" and "\<not> xlt (val a) (Fin 0)" and "is_double b"
    and "\<forall>v \<in> set (y s). 0 \<le> v" and "\<forall>v \<in> set (y_start s). 0 \<le> v"
  shows "(\<forall>v \<in> set (y s'). 0 \<le> v) \<and> (\<forall>v \<in> set (y_start s'). 0 \<le> v)
           \<and> (\<exists>q'. val (y0 s') = Fin q' \<and> 0 \<le> q')"
proof -
  let ?P = "\<lambda>(h1 :: heap) s1. (\<forall>v \<in> set (y s1). 0 \<le> v) \<and> (\<forall>v \<in> set (y_start s1). 0 \<le> v)
              \<and> (\<exists>q'. val (y0 s1) = Fin q' \<and> 0 \<le> q')"
  have "?P h s"
    using assms(2,3,7,8) by simp
  moreover have "?P h2 s2"
    if P: "?P h1 s1" and "x0 s1 < limit" and mb: "month_body t a b h1 s1 = (h2, Inr s2)"
    for h1 s1 h2 s2
  proof -
    from P have "\<not> xlt (val (y0 s1)) (Fin 0)" by auto
    from month_body_not_neg [OF mb this assms(4,5,6)] P show ?thesis
      by auto
  qed
  ultimately have "?P h' s' \<and> \<not> x0 s' < limit"
    by (rule while_loop_invariant [OF assms(1), where P = ?P])
  then show ?thesis by blast
qed

section \<open>Whole balances\<close>

text \<open>Withdrawals of an \<open>int\<close> from an \<open>int\<close> are exact.\<close>

lemma withdrawn_int:
  "withdrawn k (PInt c) (PInt z) = Inr (PInt (z - int k * c))"
  by (induction k arbitrary: z) (simp_all add: algebra_simps)

text \<open>
  A float operation on whole numbers gives a whole number or an infinity: a balance that
  \<open>int\<close> accepts, after withdrawals of a whole amount, is whole.
\<close>

lemma fl_int: "fl (of_int z) = Fin q \<Longrightarrow> q \<in> \<int>"
  using rnd_int [of z] by (auto simp: fl_def Let_def split: if_splits)

lemma py_sub_whole:
  assumes "py_sub u b = Inr v" and "val b = Fin (of_int c)"
    and "\<forall>q. val u = Fin q \<longrightarrow> q \<in> \<int>"
  shows "\<forall>q. val v = Fin q \<longrightarrow> q \<in> \<int>"
proof (intro allI impI)
  fix q assume q: "val v = Fin q"
  have sub: "xsub x (Fin (of_int c)) = Fin q \<Longrightarrow> (\<forall>p. x = Fin p \<longrightarrow> p \<in> \<int>) \<Longrightarrow> q \<in> \<int>" for x
  proof (cases x)
    case (Fin p)
    assume "xsub x (Fin (of_int c)) = Fin q" "\<forall>p. x = Fin p \<longrightarrow> p \<in> \<int>"
    with Fin obtain n where "p = of_int n" "fl (of_int n - of_int c) = Fin q"
      by (auto simp: xsub_def elim: Ints_cases)
    then have "fl (of_int (n - c)) = Fin q" by simp
    then show ?thesis by (rule fl_int)
  qed (simp_all add: xsub_def)
  show "q \<in> \<int>"
  proof (cases u)
    case (PInt n)
    show ?thesis
    proof (cases b)
      case (PInt c')
      with \<open>u = PInt n\<close> assms(1) q show ?thesis by auto
    next
      case (PFloat x)
      with \<open>u = PInt n\<close> assms(1,2) q obtain p where "fl (of_int n) = Fin p"
        "xsub (Fin p) (Fin (of_int c)) = Fin q"
        by (auto simp: to_float_Inr split: sum.splits)
      with sub [of "Fin p"] fl_int [of n p] show ?thesis by simp
    qed
  next
    case (PFloat x)
    with assms(1,2) q obtain x' where x': "as_float b = Inr x'" "xsub x x' = Fin q"
      by (cases b) (auto split: sum.splits)
    have "x' = Fin (of_int c) \<or> (\<exists>p. x' = Fin p \<and> p \<in> \<int>)"
      using x'(1) assms(2) by (cases b) (auto simp: to_float_Inr dest: fl_int)
    then obtain c' where c': "x' = Fin (of_int c')"
      by (auto elim: Ints_cases)
    have "xsub x (Fin (of_int c')) = Fin q \<Longrightarrow> (\<forall>p. x = Fin p \<longrightarrow> p \<in> \<int>) \<Longrightarrow> q \<in> \<int>"
    proof (cases x)
      case (Fin p)
      assume "xsub x (Fin (of_int c')) = Fin q" "\<forall>p. x = Fin p \<longrightarrow> p \<in> \<int>"
      with Fin obtain n where "p = of_int n" "fl (of_int n - of_int c') = Fin q"
        by (auto simp: xsub_def elim: Ints_cases)
      then have "fl (of_int (n - c')) = Fin q" by simp
      then show ?thesis by (rule fl_int)
    qed (simp_all add: xsub_def)
    with x'(2) c' assms(3) PFloat show ?thesis by simp
  qed
qed

lemma withdrawn_whole:
  assumes "withdrawn k b u = Inr v" and "val b = Fin (of_int c)"
    and "\<forall>q. val u = Fin q \<longrightarrow> q \<in> \<int>"
  shows "\<forall>q. val v = Fin q \<longrightarrow> q \<in> \<int>"
  using assms
proof (induction k arbitrary: u)
  case 0
  then show ?case by simp
next
  case (Suc k)
  from Suc.prems(1) obtain w where w: "py_sub u b = Inr w" and r: "withdrawn k b w = Inr v"
    by (auto split: sum.splits)
  from py_sub_whole [OF w Suc.prems(2,3)] have "\<forall>q. val w = Fin q \<longrightarrow> q \<in> \<int>" .
  from Suc.IH [OF r Suc.prems(2) this] show ?case .
qed

lemma py_int_whole:
  assumes "py_int v = Inr z" and "\<forall>q. val v = Fin q \<longrightarrow> q \<in> \<int>"
  shows "val v = Fin (of_int z)"
proof (cases v rule: py_int.cases)
  case (1 n)
  with assms(1) show ?thesis by simp
next
  case (2 q)
  with assms(2) obtain n where "q = of_int n"
    by (auto elim: Ints_cases)
  with 2 assms(1) show ?thesis by auto
qed (use assms(1) in simp_all)

section \<open>Growth without rounding\<close>


section \<open>Running the model\<close>

text \<open>Whole numbers below \<open>2^53\<close> and their halves are doubles.\<close>

lemma fl_numeral:
  "(numeral n :: int) < 9007199254740992 \<Longrightarrow> fl (numeral n) = Fin (numeral n)"
  using fl_of_int [of "numeral n"] by simp

lemma fl_half_numeral:
  "(numeral n :: int) < 9007199254740992 \<Longrightarrow> fl (numeral n / 2) = Fin (numeral n / 2)"
  using fl_exact [of "numeral n" "- 1"] by (simp add: pow2_def)

lemma fl_half: "fl (1 / 2) = Fin (1 / 2)"
  using fl_exact [of 1 "- 1"] by (simp add: pow2_def)

lemma fl_minus: "fl (- q) = xneg (fl q)"
  using pow2_pos [of 1024] by (auto simp: fl_def Let_def rnd_minus simp del: pow2_pos)

lemma floor_rat_numeral: "\<lfloor>numeral p / numeral q :: rat\<rfloor> = numeral p div numeral q"
  using floor_divide_of_int_eq [where ?'a = rat, of "numeral p" "numeral q"] by simp

lemma floor_rat_one: "\<lfloor>1 / numeral q :: rat\<rfloor> = 1 div numeral q"
  using floor_divide_of_int_eq [where ?'a = rat, of 1 "numeral q"] by simp

lemmas run_simps = newinvestment_def list_copy_def init_locals_def while_loop.simps
  month_body_def begin_month_def end_month_def goal_body_def list_remove_def growth_def
  to_float_def py_gt_def xsub_def Let_def fl_numeral fl_one fl_half fl_half_numeral fl_minus
  floor_rat_numeral floor_rat_one







section \<open>Two more facts about the operations\<close>

lemma remove_first_entry:
  "val v \<in> val ` set xs \<Longrightarrow>
     \<exists>x. val x = val v \<and> add_mset x (mset (remove_first v xs)) = mset xs"
  by (induction xs) auto

lemma py_int_not_invalid: "py_int u \<noteq> Inl InvalidWithdrawal"
  by (cases u rule: py_int.cases) simp_all

text \<open>A withdrawal of exactly the balance leaves zero.\<close>

lemma py_sub_equal:
  assumes "val c = val u" and "val u = Fin q" and "is_double c" and "is_double u"
  shows "\<exists>v. py_sub u c = Inr v \<and> val v = Fin 0"
proof (cases u)
  case (PInt n)
  show ?thesis
  proof (cases c)
    case (PInt k)
    with \<open>u = PInt n\<close> assms(1) show ?thesis by simp
  next
    case (PFloat x)
    with \<open>u = PInt n\<close> assms(1,3) have "x = Fin (of_int n)" "fl (of_int n) = Fin (of_int n)"
      by auto
    with PFloat \<open>u = PInt n\<close> show ?thesis
      by (simp add: to_float_def xsub_def)
  qed
next
  case (PFloat x)
  with assms(2,4) have x: "x = Fin q" "fl q = Fin q" by auto
  show ?thesis
  proof (cases c)
    case (PInt k)
    with PFloat x assms(1) have "q = of_int k" by simp
    with PInt PFloat x show ?thesis
      by (simp add: to_float_def xsub_def)
  next
    case (PFloat x')
    with \<open>u = PFloat x\<close> x assms(1) show ?thesis
      by (simp add: xsub_def)
  qed
qed

section \<open>A concrete run\<close>

text \<open>
  C3. With rate 0, contribution 100, the goals \<open>[250]\<close>, withdrawal 50, horizon 3 and
  initial balance 0 the engine returns \<open>balance_after = [100, 200, 250]\<close>,
  \<open>balance_before = [0, 100, 200]\<close> and \<open>withdrawal_months = [3]\<close>, whether the rate is
  the float \<open>0.0\<close> that the page passes or the int \<open>0\<close>. The store holds the caller's
  list at address 0; after the call it still holds \<open>[250]\<close> there, and the emptied
  working copy at address 1.
\<close>

theorem scenario_two:
  "newinvestment [[PInt 250]] (PFloat (Fin 0)) (PInt 100) 0 (PInt 50) 3 (PInt 0)
     = ([[PInt 250], []], Inr ([100, 200, 250], [0, 100, 200], [3])) \<and>
   newinvestment [[PInt 250]] (PInt 0) (PInt 100) 0 (PInt 50) 3 (PInt 0)
     = ([[PInt 250], []], Inr ([100, 200, 250], [0, 100, 200], [3]))"
  by (simp add: run_simps)

section \<open>Properties of every run\<close>

text \<open>
  C6. After a call, whether it returns or raises, the caller's goal list is unchanged in
  contents and order. The store after the call is the store before it, followed by one
  new list, the working copy, unless \<open>int(initial_balance)\<close> raised before the copy was
  made: every object that existed before, the caller's list among them, is as it was.
\<close>

theorem caller_goals_unchanged:
  "(\<exists>l. fst (newinvestment h t a travelgoals b limit init) =
          (case py_int init of Inl e \<Rightarrow> h | Inr z \<Rightarrow> h @ [l])) \<and>
   (travelgoals < length h \<longrightarrow>
      fst (newinvestment h t a travelgoals b limit init) ! travelgoals = h ! travelgoals)"
proof (cases "py_int init")
  case (Inl e)
  then have "fst (newinvestment h t a travelgoals b limit init) = h"
    by (simp add: newinvestment_eq)
  with Inl show ?thesis by simp
next
  case (Inr z)
  let ?w = "while_loop t a b limit (h @ [h ! travelgoals]) (init_locals z (length h))"
  from Inr have "fst (newinvestment h t a travelgoals b limit init) = fst ?w"
    by (simp add: newinvestment_eq split: prod.splits sum.splits)
  moreover from while_loop_heap [of t a b limit "h @ [h ! travelgoals]" "init_locals z (length h)"]
  obtain l where "fst ?w = h @ [l]"
    by (auto simp: init_locals_simps)
  ultimately have "fst (newinvestment h t a travelgoals b limit init) = h @ [l]"
    by simp
  with Inr show ?thesis
    by (auto simp: nth_append)
qed

theorem caller_goals_unchanged_witness:
  "fst (newinvestment [[PInt 50]] (PFloat (Fin 0)) (PInt 0) 0 (PInt 1000) 1 (PInt 60)) ! 0
     = [PInt 50] \<and>
   snd (newinvestment [[PInt 50]] (PFloat (Fin 0)) (PInt 0) 0 (PInt 1000) 1 (PInt 60))
     = Inl InvalidWithdrawal \<and>
   fst (newinvestment [[PInt 250]] (PFloat (Fin 0)) (PInt 100) 0 (PInt 50) 3 (PInt 0)) ! 0
     = [PInt 250] \<and>
   snd (newinvestment [[PInt 250]] (PFloat (Fin 0)) (PInt 100) 0 (PInt 50) 3 (PInt 0))
     = Inr ([100, 200, 250], [0, 100, 200], [3])"
proof -
  have "fst (newinvestment [[PInt 50]] (PFloat (Fin 0)) (PInt 0) 0 (PInt 1000) 1 (PInt 60)) ! 0
      = [PInt 50]"
    using caller_goals_unchanged [of "[[PInt 50]]" "PFloat (Fin 0)" "PInt 0" 0 "PInt 1000" 1
        "PInt 60"]
    by simp
  moreover
  have "fst (newinvestment [[PInt 250]] (PFloat (Fin 0)) (PInt 100) 0 (PInt 50) 3 (PInt 0)) ! 0
      = [PInt 250]"
    using caller_goals_unchanged [of "[[PInt 250]]" "PFloat (Fin 0)" "PInt 100" 0 "PInt 50" 3
        "PInt 0"]
    by simp
  moreover
  have "snd (newinvestment [[PInt 50]] (PFloat (Fin 0)) (PInt 0) 0 (PInt 1000) 1 (PInt 60))
      = Inl InvalidWithdrawal"
    by (simp add: run_simps)
  moreover
  have "snd (newinvestment [[PInt 250]] (PFloat (Fin 0)) (PInt 100) 0 (PInt 50) 3 (PInt 0))
      = Inr ([100, 200, 250], [0, 100, 200], [3])"
    by (simp add: run_simps)
  ultimately show ?thesis by blast
qed

text \<open>
  C8. For a run that returns, there are at most as many withdrawal months as goals, each
  of them lies between 1 and the horizon, and they are in non-decreasing order.
\<close>

theorem withdrawal_months_bounded_sorted:
  assumes "newinvestment h t a travelgoals b limit init = (h', Inr (ya, yb, wm))"
  shows "length wm \<le> length (h ! travelgoals) \<and>
         (\<forall>m \<in> set wm. 1 \<le> m \<and> m \<le> limit) \<and> sorted wm"
proof -
  from assms obtain z s where
    w: "while_loop t a b limit (h @ [h ! travelgoals]) (init_locals z (length h)) = (h', Inr s)"
    and wm: "wm = withdraw_months s"
    by (auto simp: newinvestment_Inr)
  from while_loop_working [OF w] have "length wm \<le> length (h ! travelgoals)"
    unfolding wm by auto
  moreover from while_loop_months [OF w]
  have "sorted wm \<and> (\<forall>m \<in> set wm. 0 < m \<and> m \<le> limit)"
    unfolding wm by (simp add: init_locals_simps)
  ultimately show ?thesis by auto
qed

theorem withdrawal_months_bounded_sorted_witness:
  "newinvestment [[PInt 250, PInt 260, PInt 1000]] (PFloat (Fin 0)) (PInt 100) 0 (PInt 10) 4
      (PInt 0)
     = ([[PInt 250, PInt 260, PInt 1000], [PInt 1000]],
        Inr ([100, 200, 280, 380], [0, 100, 200, 280], [3, 3])) \<and>
   length [3 :: int, 3] \<le> length ([[PInt 250, PInt 260, PInt 1000]] ! 0) \<and>
   list_all (\<lambda>m. 1 \<le> m \<and> m \<le> 4) [3 :: int, 3] \<and> sorted [3 :: int, 3]"
proof -
  have run: "newinvestment [[PInt 250, PInt 260, PInt 1000]] (PFloat (Fin 0)) (PInt 100) 0
      (PInt 10) 4 (PInt 0)
      = ([[PInt 250, PInt 260, PInt 1000], [PInt 1000]],
         Inr ([100, 200, 280, 380], [0, 100, 200, 280], [3, 3]))"
    by (simp add: run_simps)
  from withdrawal_months_bounded_sorted [OF run] run show ?thesis
    by (simp add: list_all_iff)
qed

text \<open>
  C7. Each entry of the goal collection triggers at most one withdrawal. A withdrawal
  that is applied for a goal removes one entry equal to that goal from the working list
  and logs one month; a goal that does not trigger changes neither. Over a run that
  returns, the working list only loses entries of the caller's list, and the number of
  withdrawals is the number of entries it has lost: no entry was spent twice and none
  came back.
\<close>

theorem goal_triggers_at_most_once:
  "(newinvestment h t a travelgoals b limit init = (h', Inr (ya, yb, wm)) \<longrightarrow>
      (\<exists>l. h' = h @ [l] \<and> mset l \<subseteq># mset (h ! travelgoals)
           \<and> length wm = size (mset (h ! travelgoals) - mset l))) \<and>
   (goal_body b goal h1 s1 = (h2, Inr s2) \<longrightarrow> goals s1 < length h1 \<longrightarrow>
      (withdraw_months s2 = withdraw_months s1 \<and> h2 = h1) \<or>
      (withdraw_months s2 = withdraw_months s1 @ [x0 s1 + 1] \<and>
       (\<exists>x. val x = val goal \<and> add_mset x (mset (h2 ! goals s1)) = mset (h1 ! goals s1))))"
proof (intro conjI impI)
  assume run: "newinvestment h t a travelgoals b limit init = (h', Inr (ya, yb, wm))"
  then obtain z s where
    w: "while_loop t a b limit (h @ [h ! travelgoals]) (init_locals z (length h)) = (h', Inr s)"
    and wm: "wm = withdraw_months s"
    by (auto simp: newinvestment_Inr)
  from while_loop_working [OF w] obtain l where l: "h' = h @ [l]"
    "mset l \<subseteq># mset (h ! travelgoals)" "length l + length wm = length (h ! travelgoals)"
    unfolding wm by blast
  from l(2) have "size (mset (h ! travelgoals) - mset l) = length (h ! travelgoals) - length l"
    by (simp add: size_Diff_submset)
  with l show "\<exists>l. h' = h @ [l] \<and> mset l \<subseteq># mset (h ! travelgoals)
           \<and> length wm = size (mset (h ! travelgoals) - mset l)"
    by auto
next
  assume gb: "goal_body b goal h1 s1 = (h2, Inr s2)" and g: "goals s1 < length h1"
  from goal_body_Inr [OF gb]
  show "(withdraw_months s2 = withdraw_months s1 \<and> h2 = h1) \<or>
      (withdraw_months s2 = withdraw_months s1 @ [x0 s1 + 1] \<and>
       (\<exists>x. val x = val goal \<and> add_mset x (mset (h2 ! goals s1)) = mset (h1 ! goals s1)))"
  proof
    assume "h2 = h1 \<and> s2 = s1 \<and> \<not> py_gt (y0 s1) goal"
    then show ?thesis by simp
  next
    assume a: "py_gt (y0 s1) goal \<and> \<not> py_gt b (y0 s1) \<and> val goal \<in> val ` set (h1 ! goals s1) \<and>
          h2 = h1[goals s1 := remove_first goal (h1 ! goals s1)] \<and>
          (\<exists>v. py_sub (y0 s1) b = Inr v \<and>
               s2 = s1\<lparr>y0 := v, withdraw_months := withdraw_months s1 @ [x0 s1 + 1]\<rparr>)"
    then have "val goal \<in> val ` set (h1 ! goals s1)" by simp
    from remove_first_entry [OF this] obtain x where "val x = val goal"
      "add_mset x (mset (remove_first goal (h1 ! goals s1))) = mset (h1 ! goals s1)"
      by blast
    with a g show ?thesis by auto
  qed
qed

theorem goal_triggers_at_most_once_witness:
  "newinvestment [[PInt 250, PInt 250, PInt 1000]] (PFloat (Fin 0)) (PInt 100) 0 (PInt 10) 4
      (PInt 0)
     = ([[PInt 250, PInt 250, PInt 1000], [PInt 1000]],
        Inr ([100, 200, 280, 380], [0, 100, 200, 280], [3, 3])) \<and>
   (\<exists>l. [[PInt 250, PInt 250, PInt 1000], [PInt 1000]]
          = [[PInt 250, PInt 250, PInt 1000]] @ [l]
        \<and> mset l \<subseteq># mset ([[PInt 250, PInt 250, PInt 1000]] ! 0)
        \<and> length [3 :: int, 3] = size (mset ([[PInt 250, PInt 250, PInt 1000]] ! 0) - mset l)) \<and>
   goal_body (PInt 10) (PFloat (Fin 250))
       [[PInt 250, PInt 250, PInt 1000], [PInt 250, PInt 250, PInt 1000]]
       \<lparr>x0 = 2, y0 = PInt 300, y = [100, 200], y_start = [0, 100, 200], goals = 1,
        withdraw_months = []\<rparr>
     = ([[PInt 250, PInt 250, PInt 1000], [PInt 250, PInt 1000]],
        Inr \<lparr>x0 = 2, y0 = PInt 290, y = [100, 200], y_start = [0, 100, 200], goals = 1,
             withdraw_months = [3]\<rparr>) \<and>
   (\<exists>x. val x = val (PFloat (Fin 250)) \<and>
      add_mset x (mset ([[PInt 250, PInt 250, PInt 1000], [PInt 250, PInt 1000]] ! 1))
        = mset ([[PInt 250, PInt 250, PInt 1000], [PInt 250, PInt 250, PInt 1000]] ! 1))"
proof -
  let ?st = "\<lparr>x0 = 2, y0 = PInt 300, y = [100, 200], y_start = [0, 100, 200], goals = 1,
        withdraw_months = []\<rparr>"
  let ?sv = "\<lparr>x0 = 2, y0 = PInt 290, y = [100, 200], y_start = [0, 100, 200], goals = 1,
             withdraw_months = [3]\<rparr>"
  have run: "newinvestment [[PInt 250, PInt 250, PInt 1000]] (PFloat (Fin 0)) (PInt 100) 0
      (PInt 10) 4 (PInt 0)
      = ([[PInt 250, PInt 250, PInt 1000], [PInt 1000]],
         Inr ([100, 200, 280, 380], [0, 100, 200, 280], [3, 3]))"
    by (simp add: run_simps)
  have step: "goal_body (PInt 10) (PFloat (Fin 250))
      [[PInt 250, PInt 250, PInt 1000], [PInt 250, PInt 250, PInt 1000]] ?st
      = ([[PInt 250, PInt 250, PInt 1000], [PInt 250, PInt 1000]], Inr ?sv)"
    by (simp add: run_simps)
  have "(\<exists>l. [[PInt 250, PInt 250, PInt 1000], [PInt 1000]]
          = [[PInt 250, PInt 250, PInt 1000]] @ [l]
        \<and> mset l \<subseteq># mset ([[PInt 250, PInt 250, PInt 1000]] ! 0)
        \<and> length [3 :: int, 3] = size (mset ([[PInt 250, PInt 250, PInt 1000]] ! 0) - mset l))"
    using goal_triggers_at_most_once [of "[[PInt 250, PInt 250, PInt 1000]]" "PFloat (Fin 0)"
      "PInt 100" 0 "PInt 10" 4 "PInt 0"
      "[[PInt 250, PInt 250, PInt 1000], [PInt 1000]]" "[100, 200, 280, 380]"
      "[0, 100, 200, 280]" "[3, 3]"] run
    by blast
  moreover have "\<exists>x. val x = val (PFloat (Fin 250)) \<and>
      add_mset x (mset ([[PInt 250, PInt 250, PInt 1000], [PInt 250, PInt 1000]] ! 1))
        = mset ([[PInt 250, PInt 250, PInt 1000], [PInt 250, PInt 250, PInt 1000]] ! 1)"
    using goal_triggers_at_most_once [of _ _ _ _ "PInt 10" _ _ _ _ _ _ "PFloat (Fin 250)"
        "[[PInt 250, PInt 250, PInt 1000], [PInt 250, PInt 250, PInt 1000]]" ?st
        "[[PInt 250, PInt 250, PInt 1000], [PInt 250, PInt 1000]]" ?sv] step
    by simp
  ultimately show ?thesis
    using run step by blast
qed

text \<open>
  C9. For a positive horizon, both series of a run that returns have exactly
  \<open>horizon_months\<close> entries.
\<close>

theorem series_lengths:
  assumes "newinvestment h t a travelgoals b limit init = (h', Inr (ya, yb, wm))"
    and "0 < limit"
  shows "int (length ya) = limit \<and> int (length yb) = limit"
proof -
  from assms(1) obtain z s where
    w: "while_loop t a b limit (h @ [h ! travelgoals]) (init_locals z (length h)) = (h', Inr s)"
    and ys: "ya = y s" "yb = y_start s"
    by (auto simp: newinvestment_Inr)
  from while_loop_series [OF w] assms(2) show ?thesis
    unfolding ys by (simp add: init_locals_simps)
qed

theorem series_lengths_witness:
  "newinvestment [[PInt 250]] (PFloat (Fin 0)) (PInt 100) 0 (PInt 50) 3 (PInt 0)
     = ([[PInt 250], []], Inr ([100, 200, 250], [0, 100, 200], [3])) \<and> (0 :: int) < 3 \<and>
   int (length [100 :: int, 200, 250]) = 3 \<and> int (length [0 :: int, 100, 200]) = 3"
proof -
  have run: "newinvestment [[PInt 250]] (PFloat (Fin 0)) (PInt 100) 0 (PInt 50) 3 (PInt 0)
      = ([[PInt 250], []], Inr ([100, 200, 250], [0, 100, 200], [3]))"
    by (simp add: run_simps)
  have pos: "(0 :: int) < 3" by simp
  from series_lengths [OF run pos] run pos show ?thesis
    by blast
qed

text \<open>
  C10. When the initial balance, the contribution and the withdrawal amount are not
  negative and the rate is not below -100, every entry of both series of a run that
  returns is a non-negative integer: growth keeps a non-negative balance non-negative,
  also where it rounds, and a withdrawal is applied only when it does not exceed the
  balance. The withdrawal amount is a Python number: if it is a float, it is a double.
\<close>

theorem balances_nonnegative:
  assumes "newinvestment h t a travelgoals b limit init = (h', Inr (ya, yb, wm))"
    and "\<not> py_gt (PInt 0) init" and "\<not> py_gt (PInt 0) a" and "\<not> py_gt (PInt 0) b"
    and "\<not> py_gt (PInt (- 100)) t" and "is_double b"
  shows "(\<forall>v \<in> set ya. 0 \<le> v) \<and> (\<forall>v \<in> set yb. 0 \<le> v)"
proof -
  from assms(1) obtain z s where z: "py_int init = Inr z" and
    w: "while_loop t a b limit (h @ [h ! travelgoals]) (init_locals z (length h)) = (h', Inr s)"
    and ys: "ya = y s" "yb = y_start s"
    by (auto simp: newinvestment_Inr)
  from assms(2) have "\<not> xlt (val init) (Fin 0)"
    by (simp add: py_gt_def)
  from py_int_not_neg [OF z this] have z0: "(0 :: rat) \<le> of_int z"
    by simp
  have v: "val (y0 (init_locals z (length h))) = Fin (of_int z)"
    by (simp add: init_locals_simps)
  from assms(5) have t: "\<not> xlt (val t) (Fin (- 100))"
    by (simp add: py_gt_def)
  from assms(3) have a: "\<not> xlt (val a) (Fin 0)"
    by (simp add: py_gt_def)
  from while_loop_not_neg [OF w v z0 t a assms(6)] show ?thesis
    unfolding ys by (simp add: init_locals_simps)
qed

theorem balances_nonnegative_witness:
  "newinvestment [[PInt 150]] (PFloat (Fin (- 50))) (PInt 100) 0 (PFloat (Fin 175)) 3 (PInt 0)
     = ([[PInt 150], []], Inr ([100, 150, 0], [0, 100, 150], [3])) \<and>
   list_all (\<lambda>v. 0 \<le> v) [100 :: int, 150, 0] \<and> list_all (\<lambda>v. 0 \<le> v) [0 :: int, 100, 150]"
proof -
  have run: "newinvestment [[PInt 150]] (PFloat (Fin (- 50))) (PInt 100) 0 (PFloat (Fin 175)) 3
      (PInt 0)
      = ([[PInt 150], []], Inr ([100, 150, 0], [0, 100, 150], [3]))"
    by (simp add: run_simps)
  have valid: "\<not> py_gt (PInt 0) (PInt 0)" "\<not> py_gt (PInt 0) (PInt 100)"
    "\<not> py_gt (PInt 0) (PFloat (Fin 175))" "\<not> py_gt (PInt (- 100)) (PFloat (Fin (- 50)))"
    "is_double (PFloat (Fin 175))"
    by (simp_all add: py_gt_def fl_numeral)
  from balances_nonnegative [OF run valid] run show ?thesis
    by (simp add: list_all_iff)
qed

text \<open>
  C4. Within a month the goals are checked in the order of the working list as it is
  when the month's pass starts, each by \<open>balance > goal\<close> against the balance left by
  the goals checked before it. So if the working list is \<open>pre @ goal # post\<close> and the
  pass over \<open>pre\<close> ends in the balance \<open>y0 s1\<close>, which is the month's balance after growth
  with line 35 applied once for each of the \<open>k\<close> goals of \<open>pre\<close> that triggered (for an
  \<open>int\<close> withdrawal amount \<open>c\<close> that is the balance after growth less \<open>k * c\<close>), then
  \<open>goal\<close> triggers a withdrawal exactly when \<open>y0 s1 > goal\<close>, and otherwise the pass goes
  on to \<open>post\<close> with nothing changed.
\<close>

theorem goals_checked_in_order:
  assumes "goals s < length h"
    and "h ! goals s = pre @ goal # post"
    and "begin_month t a s = Inr s0"
    and "for_goals b pre h s0 = (h1, Inr s1)"
  shows "(\<exists>k \<le> length pre. withdrawn k b (y0 s0) = Inr (y0 s1) \<and>
            (\<exists>g. y0 s0 = PInt g \<and> (\<forall>c. b = PInt c \<longrightarrow> y0 s1 = PInt (g - int k * c))) \<and>
            withdraw_months s1 = withdraw_months s @ replicate k (x0 s + 1)) \<and>
         month_body t a b h s =
           (case (if py_gt (y0 s1) goal then
                    (if py_gt b (y0 s1) then (h1, Inl InvalidWithdrawal)
                     else
                       (case py_sub (y0 s1) b of
                          Inl e \<Rightarrow> (h1, Inl e)
                        | Inr v \<Rightarrow>
                            for_goals b post
                              (h1[goals s1 := remove_first goal (h1 ! goals s1)])
                              (s1\<lparr>y0 := v,
                                 withdraw_months := withdraw_months s1 @ [x0 s1 + 1]\<rparr>)))
                  else for_goals b post h1 s1) of
              (h', Inl e) \<Rightarrow> (h', Inl e)
            | (h', Inr s2) \<Rightarrow>
                (case end_month s2 of
                   Inl e \<Rightarrow> (h', Inl e)
                 | Inr s3 \<Rightarrow> (h', Inr s3)))"
proof -
  from assms(3) obtain z g where
    s0: "s0 = s\<lparr>y_start := y_start s @ [z], y0 := PInt g\<rparr>"
    by (auto simp: begin_month_Inr)
  then have g0: "goals s0 < length h" and l0: "h ! goals s0 = pre @ goal # post"
    using assms(1,2) by simp_all
  from for_goals_locals [OF assms(4)] obtain k v where
    k: "withdrawn k b (y0 s0) = Inr v" "k \<le> length pre"
    and s1: "s1 = s0\<lparr>y0 := v, withdraw_months := withdraw_months s0 @ replicate k (x0 s0 + 1)\<rparr>"
    by blast
  have whole: "y0 s1 = PInt (g - int k * c)" if "b = PInt c" for c
    using that k(1) s1 s0 by (simp add: withdrawn_int)
  from k s1 s0 whole have first: "\<exists>k \<le> length pre. withdrawn k b (y0 s0) = Inr (y0 s1) \<and>
            (\<exists>g. y0 s0 = PInt g \<and> (\<forall>c. b = PInt c \<longrightarrow> y0 s1 = PInt (g - int k * c))) \<and>
            withdraw_months s1 = withdraw_months s @ replicate k (x0 s + 1)"
    by (intro exI [of _ k]) simp
  from l0 have "mset (map val (pre @ goal # post)) \<subseteq># mset (map val (h ! goals s0))"
    by simp
  from for_goals_at [OF g0 this assms(4)] l0 assms(3)
  have second: "month_body t a b h s =
           (case (if py_gt (y0 s1) goal then
                    (if py_gt b (y0 s1) then (h1, Inl InvalidWithdrawal)
                     else
                       (case py_sub (y0 s1) b of
                          Inl e \<Rightarrow> (h1, Inl e)
                        | Inr v \<Rightarrow>
                            for_goals b post
                              (h1[goals s1 := remove_first goal (h1 ! goals s1)])
                              (s1\<lparr>y0 := v,
                                 withdraw_months := withdraw_months s1 @ [x0 s1 + 1]\<rparr>)))
                  else for_goals b post h1 s1) of
              (h', Inl e) \<Rightarrow> (h', Inl e)
            | (h', Inr s2) \<Rightarrow>
                (case end_month s2 of
                   Inl e \<Rightarrow> (h', Inl e)
                 | Inr s3 \<Rightarrow> (h', Inr s3)))"
    by (simp add: month_body_def)
  from first second show ?thesis
    by (rule conjI)
qed

theorem goals_checked_in_order_witness:
  "begin_month (PFloat (Fin 0)) (PInt 100)
      \<lparr>x0 = 2, y0 = PInt 200, y = [100, 200], y_start = [0, 100], goals = 1,
       withdraw_months = []\<rparr>
     = Inr \<lparr>x0 = 2, y0 = PInt 300, y = [100, 200], y_start = [0, 100, 200], goals = 1,
            withdraw_months = []\<rparr> \<and>
   for_goals (PInt 10) [PInt 250]
      [[PInt 250, PInt 260, PInt 1000], [PInt 250, PInt 260, PInt 1000]]
      \<lparr>x0 = 2, y0 = PInt 300, y = [100, 200], y_start = [0, 100, 200], goals = 1,
       withdraw_months = []\<rparr>
     = ([[PInt 250, PInt 260, PInt 1000], [PInt 260, PInt 1000]],
        Inr \<lparr>x0 = 2, y0 = PInt 290, y = [100, 200], y_start = [0, 100, 200], goals = 1,
             withdraw_months = [3]\<rparr>) \<and>
   month_body (PFloat (Fin 0)) (PInt 100) (PInt 10)
      [[PInt 250, PInt 260, PInt 1000], [PInt 250, PInt 260, PInt 1000]]
      \<lparr>x0 = 2, y0 = PInt 200, y = [100, 200], y_start = [0, 100], goals = 1,
       withdraw_months = []\<rparr>
     = ([[PInt 250, PInt 260, PInt 1000], [PInt 1000]],
        Inr \<lparr>x0 = 3, y0 = PInt 280, y = [100, 200, 280], y_start = [0, 100, 200], goals = 1,
             withdraw_months = [3, 3]\<rparr>)"
proof -
  let ?H = "[[PInt 250, PInt 260, PInt 1000], [PInt 250, PInt 260, PInt 1000]]"
  let ?S = "\<lparr>x0 = 2, y0 = PInt 200, y = [100, 200], y_start = [0, 100], goals = 1,
             withdraw_months = []\<rparr>"
  let ?B = "\<lparr>x0 = 2, y0 = PInt 300, y = [100, 200], y_start = [0, 100, 200], goals = 1,
             withdraw_months = []\<rparr>"
  let ?K = "[[PInt 250, PInt 260, PInt 1000], [PInt 260, PInt 1000]]"
  let ?P = "\<lparr>x0 = 2, y0 = PInt 290, y = [100, 200], y_start = [0, 100, 200], goals = 1,
              withdraw_months = [3]\<rparr>"
  have addr: "goals ?S < length ?H"
    by simp
  have order: "?H ! goals ?S = [PInt 250] @ PInt 260 # [PInt 1000]"
    by simp
  have start: "begin_month (PFloat (Fin 0)) (PInt 100) ?S = Inr ?B"
    by (simp add: run_simps)
  have pre: "for_goals (PInt 10) [PInt 250] ?H ?B = (?K, Inr ?P)"
    by (simp add: run_simps)
  from goals_checked_in_order [OF addr order start pre]
  have "month_body (PFloat (Fin 0)) (PInt 100) (PInt 10) ?H ?S
     = ([[PInt 250, PInt 260, PInt 1000], [PInt 1000]],
        Inr \<lparr>x0 = 3, y0 = PInt 280, y = [100, 200, 280], y_start = [0, 100, 200], goals = 1,
             withdraw_months = [3, 3]\<rparr>)"
    by (simp add: end_month_def goal_body_def list_remove_def py_gt_def Let_def)
  with start pre show ?thesis
    by simp
qed

section \<open>The exceptions\<close>

text \<open>
  C2, as stated, fails: \<open>InvalidWithdrawal\<close> is not the only error of inputs that the
  validator lets through. The validator puts no upper bound on the amounts, and line 28
  multiplies the balance, an \<open>int\<close>, by a float: an initial balance of \<open>2^1024\<close> is too
  large to be converted, and the call raises \<open>OverflowError\<close> in its first month.
\<close>

theorem other_error_counterexample:
  "validate_inputs (PFloat (Fin 0)) 1 [PInt 50] (PInt (2 ^ 1024)) (PInt 0) (PInt 10) \<and>
   newinvestment [[PInt 50]] (PFloat (Fin 0)) (PInt 0) 0 (PInt 10) 1 (PInt (2 ^ 1024))
     = ([[PInt 50], [PInt 50]], Inl OverflowError)"
proof -
  have "fl (of_int (2 ^ 1024)) = PInf"
    by (rule fl_overflow) (simp add: pow2_1024)
  then have "growth (PFloat (Fin 0)) (PInt 0) (PInt (2 ^ 1024)) = Inl OverflowError"
    by (simp add: growth_def to_float_def)
  then have "newinvestment [[PInt 50]] (PFloat (Fin 0)) (PInt 0) 0 (PInt 10) 1 (PInt (2 ^ 1024))
     = ([[PInt 50], [PInt 50]], Inl OverflowError)"
    by (simp add: newinvestment_def list_copy_def init_locals_def while_loop.simps
        month_body_def begin_month_def Let_def)
  moreover
  have "validate_inputs (PFloat (Fin 0)) 1 [PInt 50] (PInt (2 ^ 1024)) (PInt 0) (PInt 10)"
    by (simp add: validate_inputs_def py_gt_def py_le_def)
  ultimately show ?thesis by simp
qed

text \<open>
  C2, amended. The engine fails with \<open>InvalidWithdrawal\<close> exactly when, at a goal that
  triggers, the withdrawal amount is strictly above the balance of that instant. An
  instant of the run is given by the months \<open>m\<close> done before (the loop to month \<open>m\<close>
  ends in the store \<open>h1\<close> and the locals \<open>s1\<close>), the working list \<open>pre @ goal # post\<close>
  of the next month, whose growth step gives \<open>s0\<close>, and the pass over \<open>pre\<close> ending in
  \<open>h2\<close> and \<open>s2\<close>. If \<open>goal\<close> triggers there and the withdrawal exceeds the balance,
  the call raises \<open>InvalidWithdrawal\<close> in the store of that instant: nothing runs after
  it and no result is returned. Conversely a call that raises \<open>InvalidWithdrawal\<close> does
  so at such an instant. Every other exception of a call is an \<open>OverflowError\<close> or the
  \<open>ValueError\<close> of \<open>int\<close> of a NaN, from the float arithmetic; \<open>list.remove\<close> never
  raises. A withdrawal equal to the balance is applied and leaves zero.
\<close>

theorem invalid_withdrawal_iff:
  "(py_int init = Inr z \<and> 0 \<le> m \<and> m < limit \<and>
    while_loop t a b m (h @ [h ! travelgoals]) (init_locals z (length h)) = (h1, Inr s1) \<and>
    h1 ! goals s1 = pre @ goal # post \<and> begin_month t a s1 = Inr s0 \<and>
    for_goals b pre h1 s0 = (h2, Inr s2) \<and> py_gt (y0 s2) goal \<and> py_gt b (y0 s2)
    \<longrightarrow> newinvestment h t a travelgoals b limit init = (h2, Inl InvalidWithdrawal)) \<and>
   (snd (newinvestment h t a travelgoals b limit init) = Inl InvalidWithdrawal \<longrightarrow>
    (\<exists>z m h1 s1 pre goal post s0 h2 s2. py_int init = Inr z \<and> 0 \<le> m \<and> m < limit \<and>
       while_loop t a b m (h @ [h ! travelgoals]) (init_locals z (length h)) = (h1, Inr s1) \<and>
       h1 ! goals s1 = pre @ goal # post \<and> begin_month t a s1 = Inr s0 \<and>
       for_goals b pre h1 s0 = (h2, Inr s2) \<and> py_gt (y0 s2) goal \<and> py_gt b (y0 s2) \<and>
       fst (newinvestment h t a travelgoals b limit init) = h2)) \<and>
   (snd (newinvestment h t a travelgoals b limit init) = Inl e \<longrightarrow>
      e = InvalidWithdrawal \<or> e = OverflowError \<or> e = NanConversion) \<and>
   (val g \<in> val ` set (h3 ! goals s3) \<and> py_gt (y0 s3) g \<and> val c = val (y0 s3) \<and>
    val (y0 s3) = Fin q \<and> is_double c \<and> is_double (y0 s3) \<longrightarrow>
    (\<exists>h4 s4. goal_body c g h3 s3 = (h4, Inr s4) \<and> val (y0 s4) = Fin 0))"
proof (intro conjI impI)
  let ?H = "h @ [h ! travelgoals]" and ?S = "init_locals z (length h)"
  assume inst: "py_int init = Inr z \<and> 0 \<le> m \<and> m < limit \<and>
    while_loop t a b m ?H ?S = (h1, Inr s1) \<and>
    h1 ! goals s1 = pre @ goal # post \<and> begin_month t a s1 = Inr s0 \<and>
    for_goals b pre h1 s0 = (h2, Inr s2) \<and> py_gt (y0 s2) goal \<and> py_gt b (y0 s2)"
  then have z: "py_int init = Inr z" and m: "0 \<le> m" "m < limit"
    and w: "while_loop t a b m ?H ?S = (h1, Inr s1)"
    and l: "h1 ! goals s1 = pre @ goal # post" and bm: "begin_month t a s1 = Inr s0"
    and p: "for_goals b pre h1 s0 = (h2, Inr s2)"
    and g: "py_gt (y0 s2) goal" "py_gt b (y0 s2)"
    by simp_all
  from while_loop_x0 [OF w] m have x: "x0 s1 = m"
    by (simp add: init_locals_simps)
  from bm have gs: "goals s0 = goals s1"
    by (auto simp: begin_month_Inr)
  from while_loop_goals [OF w] gs have addr: "goals s0 < length h1"
    by (simp add: init_locals_simps)
  from l gs have "mset (map val (pre @ goal # post)) \<subseteq># mset (map val (h1 ! goals s0))"
    by simp
  from for_goals_at [OF addr this p] g l gs
  have "for_goals b (h1 ! goals s0) h1 s0 = (h2, Inl InvalidWithdrawal)"
    by simp
  with bm have "month_body t a b h1 s1 = (h2, Inl InvalidWithdrawal)"
    by (simp add: month_body_def)
  with x m have "while_loop t a b limit h1 s1 = (h2, Inl InvalidWithdrawal)"
    by (simp add: while_loop_step)
  with w m have "while_loop t a b limit ?H ?S = (h2, Inl InvalidWithdrawal)"
    using while_loop_split [of m limit t a b ?H ?S] by simp
  with z show "newinvestment h t a travelgoals b limit init = (h2, Inl InvalidWithdrawal)"
    by (simp add: newinvestment_eq)
next
  assume r: "snd (newinvestment h t a travelgoals b limit init) = Inl InvalidWithdrawal"
  with py_int_not_invalid [of init] obtain z h' where z: "py_int init = Inr z"
    and w: "while_loop t a b limit (h @ [h ! travelgoals]) (init_locals z (length h))
              = (h', Inl InvalidWithdrawal)"
    and f: "fst (newinvestment h t a travelgoals b limit init) = h'"
    by (auto simp: newinvestment_eq split: prod.splits sum.splits)
  let ?H = "h @ [h ! travelgoals]" and ?S = "init_locals z (length h)"
  from while_loop_raises_at [OF w] obtain m h1 s1 where m: "0 \<le> m" "m < limit"
    and reach: "while_loop t a b m ?H ?S = (h1, Inr s1)"
    and addr: "goals s1 < length h1"
    and mb: "month_body t a b h1 s1 = (h', Inl InvalidWithdrawal)"
    by (auto simp: init_locals_simps)
  from mb obtain s0 where bm: "begin_month t a s1 = Inr s0"
    and fg: "for_goals b (h1 ! goals s0) h1 s0 = (h', Inl InvalidWithdrawal)"
    by (auto simp: month_body_def split: sum.splits prod.splits
        dest: begin_month_error end_month_error)
  from bm have gs: "goals s0 = goals s1"
    by (auto simp: begin_month_Inr)
  with addr have "goals s0 < length h1"
    "mset (map val (h1 ! goals s0)) \<subseteq># mset (map val (h1 ! goals s0))"
    by simp_all
  from for_goals_invalid_iff [OF this, of b h'] fg obtain pre goal post s2 where
    "h1 ! goals s0 = pre @ goal # post" "for_goals b pre h1 s0 = (h', Inr s2)"
    "py_gt (y0 s2) goal" "py_gt b (y0 s2)"
    by blast
  with z m reach bm gs f
  show "\<exists>z m h1 s1 pre goal post s0 h2 s2. py_int init = Inr z \<and> 0 \<le> m \<and> m < limit \<and>
       while_loop t a b m (h @ [h ! travelgoals]) (init_locals z (length h)) = (h1, Inr s1) \<and>
       h1 ! goals s1 = pre @ goal # post \<and> begin_month t a s1 = Inr s0 \<and>
       for_goals b pre h1 s0 = (h2, Inr s2) \<and> py_gt (y0 s2) goal \<and> py_gt b (y0 s2) \<and>
       fst (newinvestment h t a travelgoals b limit init) = h2"
    by (intro exI [of _ z] exI [of _ m] exI [of _ h1] exI [of _ s1] exI [of _ pre]
        exI [of _ goal] exI [of _ post] exI [of _ s0] exI [of _ h'] exI [of _ s2]) simp
next
  assume r: "snd (newinvestment h t a travelgoals b limit init) = Inl e"
  have "e \<noteq> RemoveMissing"
  proof (cases "py_int init")
    case (Inl e')
    with r py_int_error [OF Inl] show ?thesis
      by (auto simp: newinvestment_eq)
  next
    case (Inr z)
    with r obtain h' where
      "while_loop t a b limit (h @ [h ! travelgoals]) (init_locals z (length h)) = (h', Inl e)"
      by (auto simp: newinvestment_eq split: prod.splits sum.splits)
    then show ?thesis by (rule while_loop_error)
  qed
  then show "e = InvalidWithdrawal \<or> e = OverflowError \<or> e = NanConversion"
    by (cases e) simp_all
next
  assume a: "val g \<in> val ` set (h3 ! goals s3) \<and> py_gt (y0 s3) g \<and> val c = val (y0 s3) \<and>
    val (y0 s3) = Fin q \<and> is_double c \<and> is_double (y0 s3)"
  then obtain v where "py_sub (y0 s3) c = Inr v" "val v = Fin 0"
    using py_sub_equal [of c "y0 s3" q] by blast
  moreover from a have "\<not> py_gt c (y0 s3)"
    by (simp add: py_gt_def)
  ultimately show "\<exists>h4 s4. goal_body c g h3 s3 = (h4, Inr s4) \<and> val (y0 s4) = Fin 0"
    using a by (simp add: goal_body_eq)
qed

theorem invalid_withdrawal_iff_witness:
  "while_loop (PFloat (Fin 0)) (PInt 0) (PInt 1000) 0 ([[PInt 50]] @ [[[PInt 50]] ! 0])
      (init_locals 60 (length [[PInt 50]]))
     = ([[PInt 50], [PInt 50]], Inr (init_locals 60 1)) \<and>
   begin_month (PFloat (Fin 0)) (PInt 0) (init_locals 60 1)
     = Inr \<lparr>x0 = 0, y0 = PInt 60, y = [], y_start = [60], goals = 1, withdraw_months = []\<rparr> \<and>
   newinvestment [[PInt 50]] (PFloat (Fin 0)) (PInt 0) 0 (PInt 1000) 1 (PInt 60)
     = ([[PInt 50], [PInt 50]], Inl InvalidWithdrawal) \<and>
   (\<exists>z m h1 s1 pre goal post s0 h2 s2. py_int (PInt 60) = Inr z \<and> 0 \<le> m \<and> m < 1 \<and>
      while_loop (PFloat (Fin 0)) (PInt 0) (PInt 1000) m ([[PInt 50]] @ [[[PInt 50]] ! 0])
        (init_locals z (length [[PInt 50]])) = (h1, Inr s1) \<and>
      h1 ! goals s1 = pre @ goal # post \<and>
      begin_month (PFloat (Fin 0)) (PInt 0) s1 = Inr s0 \<and>
      for_goals (PInt 1000) pre h1 s0 = (h2, Inr s2) \<and>
      py_gt (y0 s2) goal \<and> py_gt (PInt 1000) (y0 s2) \<and>
      fst (newinvestment [[PInt 50]] (PFloat (Fin 0)) (PInt 0) 0 (PInt 1000) 1 (PInt 60)) = h2) \<and>
   (\<exists>h4 s4. goal_body (PFloat (Fin 60)) (PInt 50) [[PInt 50], [PInt 50]]
        \<lparr>x0 = 0, y0 = PInt 60, y = [], y_start = [60], goals = 1, withdraw_months = []\<rparr>
        = (h4, Inr s4) \<and> val (y0 s4) = Fin 0)"
proof -
  let ?A = "init_locals 60 1"
  let ?B = "\<lparr>x0 = 0, y0 = PInt 60, y = [], y_start = [60], goals = 1, withdraw_months = []\<rparr>"
  note at_run = invalid_withdrawal_iff [where init = "PInt 60" and z = 60 and m = 0
      and limit = 1 and t = "PFloat (Fin 0)" and a = "PInt 0" and b = "PInt 1000"
      and h = "[[PInt 50]]" and travelgoals = 0
      and ?h1.0 = "[[PInt 50], [PInt 50]]" and ?s1.0 = ?A and pre = "[]" and goal = "PInt 50"
      and post = "[]" and ?s0.0 = ?B and ?h2.0 = "[[PInt 50], [PInt 50]]" and ?s2.0 = ?B
      and e = InvalidWithdrawal
      and g = "PInt 50" and ?h3.0 = "[[PInt 50], [PInt 50]]" and ?s3.0 = ?B
      and c = "PFloat (Fin 60)" and q = 60]
  have reach: "while_loop (PFloat (Fin 0)) (PInt 0) (PInt 1000) 0
      ([[PInt 50]] @ [[[PInt 50]] ! 0]) (init_locals 60 (length [[PInt 50]]))
     = ([[PInt 50], [PInt 50]], Inr ?A)"
    by (simp add: while_loop.simps init_locals_def)
  have start: "begin_month (PFloat (Fin 0)) (PInt 0) ?A = Inr ?B"
    by (simp add: run_simps)
  have inst: "py_int (PInt 60) = Inr 60 \<and> (0 :: int) \<le> 0 \<and> (0 :: int) < 1 \<and>
      while_loop (PFloat (Fin 0)) (PInt 0) (PInt 1000) 0
        ([[PInt 50]] @ [[[PInt 50]] ! 0]) (init_locals 60 (length [[PInt 50]]))
        = ([[PInt 50], [PInt 50]], Inr ?A) \<and>
      [[PInt 50], [PInt 50]] ! goals ?A = [] @ PInt 50 # [] \<and>
      begin_month (PFloat (Fin 0)) (PInt 0) ?A = Inr ?B \<and>
      for_goals (PInt 1000) [] [[PInt 50], [PInt 50]] ?B = ([[PInt 50], [PInt 50]], Inr ?B) \<and>
      py_gt (y0 ?B) (PInt 50) \<and> py_gt (PInt 1000) (y0 ?B)"
    using reach start by (simp add: init_locals_def py_gt_def)
  from at_run [THEN conjunct1, THEN mp, OF inst]
  have run: "newinvestment [[PInt 50]] (PFloat (Fin 0)) (PInt 0) 0 (PInt 1000) 1 (PInt 60)
      = ([[PInt 50], [PInt 50]], Inl InvalidWithdrawal)" .
  then have "snd (newinvestment [[PInt 50]] (PFloat (Fin 0)) (PInt 0) 0 (PInt 1000) 1 (PInt 60))
      = Inl InvalidWithdrawal"
    by simp
  from at_run [THEN conjunct2, THEN conjunct1, THEN mp, OF this]
  have conv: "\<exists>z m h1 s1 pre goal post s0 h2 s2. py_int (PInt 60) = Inr z \<and> 0 \<le> m \<and> m < 1 \<and>
      while_loop (PFloat (Fin 0)) (PInt 0) (PInt 1000) m ([[PInt 50]] @ [[[PInt 50]] ! 0])
        (init_locals z (length [[PInt 50]])) = (h1, Inr s1) \<and>
      h1 ! goals s1 = pre @ goal # post \<and>
      begin_month (PFloat (Fin 0)) (PInt 0) s1 = Inr s0 \<and>
      for_goals (PInt 1000) pre h1 s0 = (h2, Inr s2) \<and>
      py_gt (y0 s2) goal \<and> py_gt (PInt 1000) (y0 s2) \<and>
      fst (newinvestment [[PInt 50]] (PFloat (Fin 0)) (PInt 0) 0 (PInt 1000) 1 (PInt 60)) = h2" .
  have "val (PInt 50) \<in> val ` set ([[PInt 50], [PInt 50]] ! goals ?B) \<and>
      py_gt (y0 ?B) (PInt 50) \<and> val (PFloat (Fin 60)) = val (y0 ?B) \<and>
      val (y0 ?B) = Fin 60 \<and> is_double (PFloat (Fin 60)) \<and> is_double (y0 ?B)"
    by (simp add: py_gt_def fl_numeral)
  from at_run [THEN conjunct2, THEN conjunct2, THEN conjunct2, THEN mp, OF this]
  have equal: "\<exists>h4 s4. goal_body (PFloat (Fin 60)) (PInt 50) [[PInt 50], [PInt 50]] ?B
      = (h4, Inr s4) \<and> val (y0 s4) = Fin 0" .
  from reach start run conv equal show ?thesis
    by (intro conjI)
qed

section \<open>Where the code rounds\<close>




text \<open>
  C5, as stated, fails for a withdrawal amount that is not whole. The balance left by a
  withdrawal is truncated where it is recorded (lines 27 and 38), not where it is carried
  into the next month (line 28 reads \<open>y0\<close> itself). With rate 100, the goal 50,
  withdrawal 0.5 and initial balance 100, month 1 leaves 199.5, recorded as 199; month 2
  grows 199.5 to 399, where the truncated 199 would grow to 398. Every float of this run
  is exact.
\<close>

theorem post_withdrawal_truncation_counterexample:
  "month_body (PFloat (Fin 100)) (PInt 0) (PFloat (Fin (1 / 2))) [[PInt 50], [PInt 50]]
      (init_locals 100 1)
     = ([[PInt 50], []],
        Inr \<lparr>x0 = 1, y0 = PFloat (Fin (399 / 2)), y = [199], y_start = [100], goals = 1,
             withdraw_months = [1]\<rparr>) \<and>
   newinvestment [[PInt 50]] (PFloat (Fin 100)) (PInt 0) 0 (PFloat (Fin (1 / 2))) 2 (PInt 100)
     = ([[PInt 50], []], Inr ([199, 399], [100, 199], [1])) \<and>
   growth (PFloat (Fin 100)) (PInt 0) (PInt 199) = Inr 398"
  by (simp add: run_simps)

text \<open>
  C5, amended. After the withdrawals of a month, what is recorded as that month's
  \<open>balance_after\<close>, and as the next month's \<open>balance_before\<close>, is the balance truncated
  toward zero. The next month's growth is computed from the balance itself; when the
  withdrawal amount is a whole number the balance is whole too, so that truncating it
  would change nothing.
\<close>

theorem post_withdrawal_recorded_truncated:
  assumes "month_body t a b h s = (h', Inr s')"
  shows "\<exists>z. py_int (y0 s') = Inr z \<and> y s' = y s @ [z] \<and>
           begin_month t a s' =
             (case growth t a (y0 s') of
                Inl e \<Rightarrow> Inl e
              | Inr g \<Rightarrow> Inr (s'\<lparr>y_start := y_start s' @ [z], y0 := PInt g\<rparr>)) \<and>
           ((\<exists>c. val b = Fin (of_int c)) \<longrightarrow> val (y0 s') = Fin (of_int z))"
proof -
  from month_body_locals [OF assms] obtain k z g v z' where
    g: "growth t a (y0 s) = Inr g" and v: "withdrawn k b (PInt g) = Inr v"
    and z': "py_int v = Inr z'"
    and s': "s' = s\<lparr>x0 := x0 s + 1, y0 := v, y := y s @ [z'],
                     y_start := y_start s @ [z],
                     withdraw_months := withdraw_months s @ replicate k (x0 s + 1)\<rparr>"
    by blast
  from s' z' have rec: "py_int (y0 s') = Inr z'" "y s' = y s @ [z']"
    by simp_all
  from rec(1) have next_month: "begin_month t a s' =
             (case growth t a (y0 s') of
                Inl e \<Rightarrow> Inl e
              | Inr g \<Rightarrow> Inr (s'\<lparr>y_start := y_start s' @ [z'], y0 := PInt g\<rparr>))"
    by (simp add: begin_month_def)
  have whole: "val (y0 s') = Fin (of_int z')" if "\<exists>c. val b = Fin (of_int c)"
  proof -
    from that obtain c where c: "val b = Fin (of_int c)" ..
    have "\<forall>q. val (PInt g) = Fin q \<longrightarrow> q \<in> \<int>"
      by simp
    from withdrawn_whole [OF v c this] have "\<forall>q. val v = Fin q \<longrightarrow> q \<in> \<int>" .
    from py_int_whole [OF z' this] s' show ?thesis
      by simp
  qed
  from rec next_month whole show ?thesis
    by blast
qed

theorem post_withdrawal_recorded_truncated_witness:
  "month_body (PFloat (Fin 0)) (PInt 100) (PFloat (Fin 50)) [[PInt 250], [PInt 250]]
      \<lparr>x0 = 2, y0 = PInt 200, y = [100, 200], y_start = [0, 100], goals = 1,
       withdraw_months = []\<rparr>
     = ([[PInt 250], []],
        Inr \<lparr>x0 = 3, y0 = PFloat (Fin 250), y = [100, 200, 250], y_start = [0, 100, 200],
             goals = 1, withdraw_months = [3]\<rparr>) \<and>
   (\<exists>c. val (PFloat (Fin 50)) = Fin (of_int c)) \<and>
   (\<exists>z. py_int (PFloat (Fin 250)) = Inr z \<and> [100, 200, 250] = [100, 200] @ [z] \<and>
      val (PFloat (Fin 250)) = Fin (of_int z))"
proof -
  let ?A = "\<lparr>x0 = 2, y0 = PInt 200, y = [100, 200], y_start = [0, 100], goals = 1,
             withdraw_months = []\<rparr>"
  let ?B = "\<lparr>x0 = 3, y0 = PFloat (Fin 250), y = [100, 200, 250], y_start = [0, 100, 200],
             goals = 1, withdraw_months = [3]\<rparr>"
  have month: "month_body (PFloat (Fin 0)) (PInt 100) (PFloat (Fin 50))
      [[PInt 250], [PInt 250]] ?A = ([[PInt 250], []], Inr ?B)"
    by (simp add: run_simps)
  have "val (PFloat (Fin 50)) = Fin (of_int 50)"
    by simp
  then have whole: "\<exists>c. val (PFloat (Fin 50)) = Fin (of_int c)" ..
  from post_withdrawal_recorded_truncated [OF month] whole
  have "\<exists>z. py_int (PFloat (Fin 250)) = Inr z \<and> [100, 200, 250] = [100, 200] @ [z] \<and>
      val (PFloat (Fin 250)) = Fin (of_int z)"
    by auto
  with month whole show ?thesis
    by (intro conjI)
qed

end
